theory Spec2Isabelle
  imports Complex_Main "HOL-Library.Word"
begin

section \<open>Numbers, buffers and strings of the runtime\<close>

text \<open>
  A JavaScript number that the mesh decoder can produce: a finite value, one of the two
  infinities, or NaN. Finite values are kept as exact rationals (every float32 and every
  float64 is a dyadic rational); the two zeros of IEEE-754, which \<open>===\<close> identifies, are
  the one value \<open>Fin 0\<close>.
\<close>

datatype jsnum = NaN | NegInf | Fin rat | PosInf

type_synonym byte = "8 word"
type_synonym buffer = "byte list"

text \<open>A JavaScript string is a sequence of UTF-16 code units.\<close>

type_synonym jsstring = "nat list"

text \<open>
  The errors the code can meet. \<open>Error m\<close> is an error made by \<open>new Error(m)\<close> in the
  source; the others are thrown by the runtime: a \<open>RangeError\<close> and a \<open>TypeError\<close>, an
  error of the file system with its code, and the error \<open>ERR_STRING_TOO_LONG\<close> of a string
  that would be longer than the runtime allows.
\<close>

datatype js_error = RangeError | TypeError | Error string | FsError string | StringTooLong

text \<open>IEEE comparison \<open>a <= b\<close>: false as soon as one side is NaN.\<close>

fun num_le :: "jsnum \<Rightarrow> jsnum \<Rightarrow> bool" where
  "num_le NaN _ = False"
| "num_le _ NaN = False"
| "num_le NegInf _ = True"
| "num_le _ PosInf = True"
| "num_le (Fin a) (Fin b) = (a \<le> b)"
| "num_le (Fin a) NegInf = False"
| "num_le PosInf (Fin b) = False"
| "num_le PosInf NegInf = False"

text \<open>\<open>Math.min\<close> and \<open>Math.max\<close> of two arguments: NaN as soon as one argument is NaN.\<close>

definition Math_min :: "jsnum \<Rightarrow> jsnum \<Rightarrow> jsnum" where
  "Math_min a b = (if a = NaN \<or> b = NaN then NaN else if num_le a b then a else b)"

definition Math_max :: "jsnum \<Rightarrow> jsnum \<Rightarrow> jsnum" where
  "Math_max a b = (if a = NaN \<or> b = NaN then NaN else if num_le a b then b else a)"

subsection \<open>Reading a buffer\<close>

text \<open>The four bytes at \<open>off\<close>, little-endian, as an unsigned 32-bit value.\<close>

definition le32 :: "buffer \<Rightarrow> nat \<Rightarrow> nat" where
  "le32 buf off =
     unat (buf ! off) + 256 * unat (buf ! (off + 1)) + 65536 * unat (buf ! (off + 2))
       + 16777216 * unat (buf ! (off + 3))"

text \<open>The value of a float32 bit pattern: sign, 8 exponent bits, 23 fraction bits.\<close>

definition f32_value :: "nat \<Rightarrow> jsnum" where
  "f32_value bits =
     (let s = bits div 2 ^ 31 mod 2; e = bits div 2 ^ 23 mod 256; m = bits mod 2 ^ 23;
          sg = (if s = 1 then - 1 else 1 :: rat)
      in if e = 255 then (if m = 0 then (if s = 1 then NegInf else PosInf) else NaN)
         else if e = 0 then Fin (sg * of_nat m / 2 ^ 149)
         else if 150 \<le> e then Fin (sg * of_nat (2 ^ 23 + m) * 2 ^ (e - 150))
         else Fin (sg * of_nat (2 ^ 23 + m) / 2 ^ (150 - e)))"

text \<open>\<open>buffer.readUInt32LE(off)\<close> and \<open>buffer.readFloatLE(off)\<close> throw a RangeError
  when the four bytes are not all inside the buffer.\<close>

definition readUInt32LE :: "buffer \<Rightarrow> nat \<Rightarrow> js_error + nat" where
  "readUInt32LE buf off = (if off + 4 \<le> length buf then Inr (le32 buf off) else Inl RangeError)"

definition readFloatLE :: "buffer \<Rightarrow> nat \<Rightarrow> js_error + jsnum" where
  "readFloatLE buf off =
     (if off + 4 \<le> length buf then Inr (f32_value (le32 buf off)) else Inl RangeError)"

section \<open>The STL bounding-box parser\<close>

text \<open>The two arrays \<open>min\<close> and \<open>max\<close> of \<open>parseStlBoundingBox\<close>, three numbers each.\<close>

type_synonym vec3 = "jsnum \<times> jsnum \<times> jsnum"

record bbox =
  bmin :: vec3
  bmax :: vec3

definition empty_box :: bbox where
  "empty_box = \<lparr>bmin = (PosInf, PosInf, PosInf), bmax = (NegInf, NegInf, NegInf)\<rparr>"

text \<open>The three lines that fold one vertex into \<open>min\<close> and \<open>max\<close>.\<close>

definition fold_vertex :: "bbox \<Rightarrow> vec3 \<Rightarrow> bbox" where
  "fold_vertex b p =
     (case (bmin b, bmax b, p) of
        ((m0, m1, m2), (x0, x1, x2), (x, y, z)) \<Rightarrow>
          \<lparr>bmin = (Math_min m0 x, Math_min m1 y, Math_min m2 z),
           bmax = (Math_max x0 x, Math_max x1 y, Math_max x2 z)\<rparr>)"

text \<open>The three reads of one vertex at offset \<open>off\<close>.\<close>

definition read_vertex :: "buffer \<Rightarrow> nat \<Rightarrow> js_error + vec3" where
  "read_vertex buf off =
     (case readFloatLE buf off of Inl e \<Rightarrow> Inl e
      | Inr x \<Rightarrow>
          (case readFloatLE buf (off + 4) of Inl e \<Rightarrow> Inl e
           | Inr y \<Rightarrow>
               (case readFloatLE buf (off + 8) of Inl e \<Rightarrow> Inl e
                | Inr z \<Rightarrow> Inr (x, y, z))))"

text \<open>The inner loop \<open>for (let v = 0; v < 3; v++)\<close> of one triangle record.\<close>

function vertex_loop :: "buffer \<Rightarrow> nat \<Rightarrow> nat \<Rightarrow> bbox \<Rightarrow> js_error + bbox" where
  "vertex_loop buf base v b =
     (if v < 3 then
        (case read_vertex buf (base + v * 12) of Inl e \<Rightarrow> Inl e
         | Inr p \<Rightarrow> vertex_loop buf base (v + 1) (fold_vertex b p))
      else Inr b)"
  by pat_completeness auto
termination
  by (relation "measure (\<lambda>(buf, base, v, b). 3 - v)") auto

text \<open>The outer loop \<open>for (let i = 0; i < numTriangles; i++)\<close>; the normal vector of
  each record (12 bytes) is skipped.\<close>

function triangle_loop :: "buffer \<Rightarrow> nat \<Rightarrow> nat \<Rightarrow> bbox \<Rightarrow> js_error + bbox" where
  "triangle_loop buf numTriangles i b =
     (if i < numTriangles then
        (case vertex_loop buf (84 + i * 50 + 12) 0 b of Inl e \<Rightarrow> Inl e
         | Inr b' \<Rightarrow> triangle_loop buf numTriangles (i + 1) b')
      else Inr b)"
  by pat_completeness auto
termination
  by (relation "measure (\<lambda>(buf, n, i, b). n - i)") auto

declare vertex_loop.simps [simp del]
declare triangle_loop.simps [simp del]

subsection \<open>The text of a buffer\<close>

text \<open>
  \<open>buffer.toString('utf8')\<close> decodes UTF-8 and replaces every ill-formed sequence by
  U+FFFD, one replacement per maximal ill-formed prefix; a code point above U+FFFF becomes
  a surrogate pair. The decoder keeps the bytes still needed, the bytes seen, the code point
  read so far and the range allowed for the next continuation byte. A buffer of more than
  \<open>buffer.constants.MAX_STRING_LENGTH\<close> bytes (0x1fffffe8 on a 64-bit build) is not decoded:
  \<open>toString\<close> throws \<open>ERR_STRING_TOO_LONG\<close>.
\<close>

definition MAX_STRING_LENGTH :: nat where
  "MAX_STRING_LENGTH = 536870888"

record utf8_state =
  u_needed :: nat
  u_seen :: nat
  u_cp :: nat
  u_lower :: nat
  u_upper :: nat

definition utf8_idle :: utf8_state where
  "utf8_idle = \<lparr>u_needed = 0, u_seen = 0, u_cp = 0, u_lower = 128, u_upper = 191\<rparr>"

definition code_units :: "nat \<Rightarrow> jsstring" where
  "code_units cp =
     (if cp < 65536 then [cp]
      else [55296 + (cp - 65536) div 1024, 56320 + (cp - 65536) mod 1024])"

definition utf8_lead :: "nat \<Rightarrow> jsstring \<times> utf8_state" where
  "utf8_lead b =
     (if b \<le> 127 then ([b], utf8_idle)
      else if 194 \<le> b \<and> b \<le> 223 then ([], utf8_idle\<lparr>u_needed := 1, u_cp := b mod 32\<rparr>)
      else if 224 \<le> b \<and> b \<le> 239 then
        ([], utf8_idle\<lparr>u_needed := 2, u_cp := b mod 16,
               u_lower := (if b = 224 then 160 else 128),
               u_upper := (if b = 237 then 159 else 191)\<rparr>)
      else if 240 \<le> b \<and> b \<le> 244 then
        ([], utf8_idle\<lparr>u_needed := 3, u_cp := b mod 8,
               u_lower := (if b = 240 then 144 else 128),
               u_upper := (if b = 244 then 143 else 191)\<rparr>)
      else ([65533], utf8_idle))"

definition utf8_step :: "utf8_state \<Rightarrow> nat \<Rightarrow> jsstring \<times> utf8_state" where
  "utf8_step st b =
     (if u_needed st = 0 then utf8_lead b
      else if b < u_lower st \<or> u_upper st < b then
        (case utf8_lead b of (out, st') \<Rightarrow> (65533 # out, st'))
      else
        (let cp = u_cp st * 64 + b mod 64; seen = u_seen st + 1
         in if seen = u_needed st then (code_units cp, utf8_idle)
            else ([], st\<lparr>u_cp := cp, u_seen := seen, u_lower := 128, u_upper := 191\<rparr>)))"

fun utf8_run :: "utf8_state \<Rightarrow> nat list \<Rightarrow> jsstring" where
  "utf8_run st [] = (if u_needed st = 0 then [] else [65533])"
| "utf8_run st (b # bs) = (case utf8_step st b of (out, st') \<Rightarrow> out @ utf8_run st' bs)"

definition toString_utf8 :: "buffer \<Rightarrow> js_error + jsstring" where
  "toString_utf8 buf =
     (if MAX_STRING_LENGTH < length buf then Inl StringTooLong
      else Inr (utf8_run utf8_idle (map unat buf)))"

subsection \<open>The regular expression of the text fallback\<close>

text \<open>The class \<open>\s\<close> of a JavaScript regular expression (white space and line
  terminators), and the class \<open>[-\d.eE+]\<close> of the three captured groups.\<close>

definition is_space :: "nat \<Rightarrow> bool" where
  "is_space c \<longleftrightarrow>
     (9 \<le> c \<and> c \<le> 13) \<or> c = 32 \<or> c = 160 \<or> c = 5760 \<or> (8192 \<le> c \<and> c \<le> 8202)
     \<or> c = 8232 \<or> c = 8233 \<or> c = 8239 \<or> c = 8287 \<or> c = 12288 \<or> c = 65279"

definition is_digit :: "nat \<Rightarrow> bool" where
  "is_digit c \<longleftrightarrow> 48 \<le> c \<and> c \<le> 57"

definition is_tok :: "nat \<Rightarrow> bool" where
  "is_tok c \<longleftrightarrow> c = 45 \<or> is_digit c \<or> c = 46 \<or> c = 101 \<or> c = 69 \<or> c = 43"

text \<open>The code units of a literal of the source.\<close>

definition units :: "string \<Rightarrow> jsstring" where
  "units s = map of_char s"

fun strip_prefix :: "jsstring \<Rightarrow> jsstring \<Rightarrow> jsstring option" where
  "strip_prefix [] s = Some s"
| "strip_prefix (p # ps) [] = None"
| "strip_prefix (p # ps) (c # cs) = (if p = c then strip_prefix ps cs else None)"

text \<open>\<open>\s+\<close>: at least one space, then all the spaces that follow (what follows \<open>\s+\<close>
  in the expression is never a space, so a shorter run cannot match either).\<close>

definition spaces1 :: "jsstring \<Rightarrow> jsstring option" where
  "spaces1 s =
     (case s of [] \<Rightarrow> None
      | c # cs \<Rightarrow> if is_space c then Some (dropWhile is_space cs) else None)"

text \<open>\<open>([-\d.eE+]+)\<close>: the longest run of the class, not empty.\<close>

definition token :: "jsstring \<Rightarrow> (jsstring \<times> jsstring) option" where
  "token s =
     (if takeWhile is_tok s = [] then None
      else Some (takeWhile is_tok s, dropWhile is_tok s))"

text \<open>One attempt of \<open>/vertex\s+([-\d.eE+]+)\s+([-\d.eE+]+)\s+([-\d.eE+]+)/\<close> at the
  head of the text: the three groups and the text after the match.\<close>

definition match_vertex ::
  "jsstring \<Rightarrow> ((jsstring \<times> jsstring \<times> jsstring) \<times> jsstring) option" where
  "match_vertex s =
     (case strip_prefix (units ''vertex'') s of None \<Rightarrow> None
      | Some r0 \<Rightarrow>
     (case spaces1 r0 of None \<Rightarrow> None
      | Some r1 \<Rightarrow>
     (case token r1 of None \<Rightarrow> None
      | Some (g1, r2) \<Rightarrow>
     (case spaces1 r2 of None \<Rightarrow> None
      | Some r3 \<Rightarrow>
     (case token r3 of None \<Rightarrow> None
      | Some (g2, r4) \<Rightarrow>
     (case spaces1 r4 of None \<Rightarrow> None
      | Some r5 \<Rightarrow>
     (case token r5 of None \<Rightarrow> None
      | Some (g3, r6) \<Rightarrow> Some ((g1, g2, g3), r6))))))))"

lemma strip_prefix_length:
  "strip_prefix p s = Some r \<Longrightarrow> length r + length p = length s"
  by (induction p s rule: strip_prefix.induct) (auto split: if_splits)

lemma spaces1_length: "spaces1 s = Some r \<Longrightarrow> length r < length s"
  by (auto simp: spaces1_def less_Suc_eq_le length_dropWhile_le split: list.splits if_splits)

lemma token_length: "token s = Some (t, r) \<Longrightarrow> length r \<le> length s"
  by (auto simp: token_def length_dropWhile_le split: if_splits)

lemma match_vertex_length:
  assumes "match_vertex s = Some (m, r)"
  shows "length r < length s"
proof -
  from assms obtain r0 r1 g1 r2 r3 g2 r4 r5 g3 where
    a: "strip_prefix (units ''vertex'') s = Some r0" "spaces1 r0 = Some r1"
       "token r1 = Some (g1, r2)" "spaces1 r2 = Some r3" "token r3 = Some (g2, r4)"
       "spaces1 r4 = Some r5" "token r5 = Some (g3, r)"
    by (auto simp: match_vertex_def split: option.splits prod.splits)
  from a(1) have "length r0 \<le> length s"
    by (auto dest: strip_prefix_length)
  moreover from a(2) have "length r1 < length r0" by (rule spaces1_length)
  moreover from a(3) have "length r2 \<le> length r1" by (rule token_length)
  moreover from a(4) have "length r3 < length r2" by (rule spaces1_length)
  moreover from a(5) have "length r4 \<le> length r3" by (rule token_length)
  moreover from a(6) have "length r5 < length r4" by (rule spaces1_length)
  moreover from a(7) have "length r \<le> length r5" by (rule token_length)
  ultimately show ?thesis by linarith
qed

text \<open>The loop \<open>while ((m = re.exec(text)) !== null)\<close> of a global expression: the
  matches from left to right, each search starting where the match before ended.\<close>

function vertex_matches :: "jsstring \<Rightarrow> (jsstring \<times> jsstring \<times> jsstring) list" where
  "vertex_matches [] = []"
| "vertex_matches (c # cs) =
     (case match_vertex (c # cs) of
        Some (m, rest) \<Rightarrow> m # vertex_matches rest
      | None \<Rightarrow> vertex_matches cs)"
  by pat_completeness auto
termination
  by (relation "measure length") (auto dest: match_vertex_length)

subsection \<open>parseFloat\<close>

text \<open>
  \<open>parseFloat\<close> skips leading white space, reads the longest prefix that is a decimal
  literal (a sign, then \<open>Infinity\<close>, or digits with an optional fraction and an optional
  complete exponent) and returns the float64 nearest to its value, ties to even; NaN when no
  prefix is a literal.
\<close>

definition pow2 :: "int \<Rightarrow> rat" where
  "pow2 k = (if 0 \<le> k then 2 ^ nat k else 1 / 2 ^ nat (- k))"

definition pow10 :: "int \<Rightarrow> rat" where
  "pow10 k = (if 0 \<le> k then 10 ^ nat k else 1 / 10 ^ nat (- k))"

fun bitlen :: "nat \<Rightarrow> nat" where
  "bitlen n = (if n = 0 then 0 else Suc (bitlen (n div 2)))"

declare bitlen.simps [simp del]

definition round_half_even :: "rat \<Rightarrow> int" where
  "round_half_even r =
     (let f = \<lfloor>r\<rfloor>; d = r - of_int f
      in if d < 1 / 2 then f else if 1 / 2 < d then f + 1 else if even f then f else f + 1)"

definition to_double :: "rat \<Rightarrow> jsnum" where
  "to_double q =
     (if q = 0 then Fin 0
      else
        (let a = \<bar>q\<bar>;
             k = int (bitlen (nat (fst (quotient_of a)))) - int (bitlen (nat (snd (quotient_of a))));
             e = (if pow2 k \<le> a then k else k - 1);
             ulp = pow2 (max e (- 1022) - 52);
             v = of_int (round_half_even (a / ulp)) * ulp
         in if pow2 1024 \<le> v then (if q < 0 then NegInf else PosInf)
            else Fin (if q < 0 then - v else v)))"

definition digits_value :: "jsstring \<Rightarrow> nat" where
  "digits_value ds = foldl (\<lambda>n c. 10 * n + (c - 48)) 0 ds"

definition decimal_value :: "jsstring \<Rightarrow> jsstring \<Rightarrow> int \<Rightarrow> rat" where
  "decimal_value ip fp ex = of_nat (digits_value (ip @ fp)) * pow10 (ex - int (length fp))"

text \<open>The exponent part at the head of the text, 0 when there is none or it is not
  complete (\<open>1e\<close> and \<open>1e+\<close> are read as 1).\<close>

definition parse_exponent :: "jsstring \<Rightarrow> int" where
  "parse_exponent s =
     (case s of [] \<Rightarrow> 0
      | c # r \<Rightarrow>
          if c = 101 \<or> c = 69 then
            (case r of [] \<Rightarrow> 0
             | sg # r' \<Rightarrow>
                 if sg = 43 \<or> sg = 45 then
                   (if takeWhile is_digit r' = [] then 0
                    else if sg = 45 then - int (digits_value (takeWhile is_digit r'))
                    else int (digits_value (takeWhile is_digit r')))
                 else if takeWhile is_digit r = [] then 0
                 else int (digits_value (takeWhile is_digit r)))
          else 0)"

definition parse_unsigned :: "jsstring \<Rightarrow> rat option" where
  "parse_unsigned s =
     (let ip = takeWhile is_digit s; r = dropWhile is_digit s
      in if ip \<noteq> [] then
           (case r of [] \<Rightarrow> Some (decimal_value ip [] 0)
            | c # r' \<Rightarrow>
                if c = 46 then
                  Some (decimal_value ip (takeWhile is_digit r')
                          (parse_exponent (dropWhile is_digit r')))
                else Some (decimal_value ip [] (parse_exponent r)))
         else
           (case r of [] \<Rightarrow> None
            | c # r' \<Rightarrow>
                if c = 46 \<and> takeWhile is_digit r' \<noteq> [] then
                  Some (decimal_value [] (takeWhile is_digit r')
                          (parse_exponent (dropWhile is_digit r')))
                else None))"

definition parseFloat :: "jsstring \<Rightarrow> jsnum" where
  "parseFloat s =
     (let t = dropWhile is_space s;
          neg = (case t of [] \<Rightarrow> False | c # r \<Rightarrow> c = 45);
          u = (case t of [] \<Rightarrow> [] | c # r \<Rightarrow> if c = 45 \<or> c = 43 then r else t)
      in if strip_prefix (units ''Infinity'') u \<noteq> None then (if neg then NegInf else PosInf)
         else
           (case parse_unsigned u of None \<Rightarrow> NaN
            | Some q \<Rightarrow> to_double (if neg then - q else q)))"

subsection \<open>parseStlBoundingBox\<close>

definition text_vertex :: "jsstring \<times> jsstring \<times> jsstring \<Rightarrow> vec3" where
  "text_vertex m = (case m of (g1, g2, g3) \<Rightarrow> (parseFloat g1, parseFloat g2, parseFloat g3))"

text \<open>The text fallback: every match is folded into the \<open>min\<close> and \<open>max\<close> it is given,
  which are those the binary scan left. It throws when the buffer is too long to be a
  string.\<close>

definition ascii_fallback :: "buffer \<Rightarrow> bbox \<Rightarrow> js_error + bbox" where
  "ascii_fallback buffer b =
     (case toString_utf8 buffer of Inl e \<Rightarrow> Inl e
      | Inr text \<Rightarrow> Inr (foldl fold_vertex b (map text_vertex (vertex_matches text))))"

definition parseStlBoundingBox :: "buffer \<Rightarrow> js_error + bbox" where
  "parseStlBoundingBox buffer =
     (if 84 \<le> length buffer then
        (case readUInt32LE buffer 80 of Inl e \<Rightarrow> Inl e
         | Inr numTriangles \<Rightarrow>
             (let expectedSize = 84 + numTriangles * 50
              in if 0 < numTriangles \<and> expectedSize \<le> length buffer then
                   (case triangle_loop buffer numTriangles 0 empty_box of Inl e \<Rightarrow> Inl e
                    | Inr b \<Rightarrow>
                        if fst (bmin b) \<noteq> PosInf then Inr b
                        else ascii_fallback buffer b)
                 else ascii_fallback buffer empty_box))
      else ascii_fallback buffer empty_box)"

text \<open>
  A mesh as the helper \<open>makeBinaryStl\<close> of the repository's tests builds it: a header of
  80 zero bytes, the count 1, and one triangle whose three vertices are (+Infinity, 0, 0)
  (the bytes 00 00 80 7F for the x coordinate) and whose normal is made of the three floats
  with the bytes \<open>vert\<close>, \<open>ex 1\<close> and \<open> 2 3\<close>, so that the twelve bytes of the normal
  read \<open>vertex 1 2 3\<close>.
\<close>

definition inf_mesh :: buffer where
  "inf_mesh =
     map of_nat
       (replicate 80 0 @ [1, 0, 0, 0]
        @ [118, 101, 114, 116, 101, 120, 32, 49, 32, 50, 32, 51]
        @ concat (replicate 3 ([0, 0, 128, 127] @ replicate 8 0)) @ [0, 0])"

subsection \<open>What a binary mesh holds\<close>

text \<open>Vertex \<open>v\<close> of triangle \<open>i\<close> of a binary mesh: three float32 values after the
  84 bytes of header and count, the records before it and the 12 bytes of its normal.\<close>

definition vertex_at :: "buffer \<Rightarrow> nat \<Rightarrow> nat \<Rightarrow> vec3" where
  "vertex_at buf i v =
     (f32_value (le32 buf (84 + i * 50 + 12 + v * 12)),
      f32_value (le32 buf (84 + i * 50 + 12 + v * 12 + 4)),
      f32_value (le32 buf (84 + i * 50 + 12 + v * 12 + 8)))"

definition mesh_vertices :: "buffer \<Rightarrow> nat \<Rightarrow> vec3 list" where
  "mesh_vertices buf n = concat (map (\<lambda>i. map (vertex_at buf i) [0..<3]) [0..<n])"

text \<open>A well-formed binary mesh of \<open>n\<close> triangles: an 80-byte header, the count \<open>n\<close>
  at least 1, and room for \<open>n\<close> records of 50 bytes.\<close>

definition well_formed_A :: "buffer \<Rightarrow> nat \<Rightarrow> bool" where
  "well_formed_A buf n \<longleftrightarrow>
     84 \<le> length buf \<and> le32 buf 80 = n \<and> 1 \<le> n \<and> 84 + 50 * n \<le> length buf"

text \<open>The least and the greatest element of a list of numbers, by the comparison of the
  language; a list that holds NaN has neither. \<open>axis_bounds\<close> is what the fold of
  \<open>Math.min\<close> and \<open>Math.max\<close> leaves on one axis: the least and the greatest
  coordinate, and NaN twice when a coordinate is NaN.\<close>

definition is_least :: "jsnum \<Rightarrow> jsnum list \<Rightarrow> bool" where
  "is_least m xs \<longleftrightarrow> m \<in> set xs \<and> (\<forall>x \<in> set xs. num_le m x)"

definition is_greatest :: "jsnum \<Rightarrow> jsnum list \<Rightarrow> bool" where
  "is_greatest m xs \<longleftrightarrow> m \<in> set xs \<and> (\<forall>x \<in> set xs. num_le x m)"

definition axis_bounds :: "jsnum \<Rightarrow> jsnum \<Rightarrow> jsnum list \<Rightarrow> bool" where
  "axis_bounds lo hi xs =
     (if NaN \<in> set xs then lo = NaN \<and> hi = NaN else is_least lo xs \<and> is_greatest hi xs)"

definition xs_of :: "vec3 list \<Rightarrow> jsnum list" where
  "xs_of vs = map fst vs"

definition ys_of :: "vec3 list \<Rightarrow> jsnum list" where
  "ys_of vs = map (\<lambda>p. fst (snd p)) vs"

definition zs_of :: "vec3 list \<Rightarrow> jsnum list" where
  "zs_of vs = map (\<lambda>p. snd (snd p)) vs"

text \<open>The mesh of the repository's test: one triangle with the vertices (-1, -2, -3),
  (4, 5, 6) and (7, 8, 9), the normal (0, 0, 1) and a header of zeros.\<close>

definition tri_mesh :: buffer where
  "tri_mesh =
     map of_nat
       (replicate 80 0 @ [1, 0, 0, 0]
        @ [0, 0, 0, 0, 0, 0, 0, 0, 0, 0, 128, 63]
        @ [0, 0, 128, 191, 0, 0, 0, 192, 0, 0, 64, 192]
        @ [0, 0, 128, 64, 0, 0, 160, 64, 0, 0, 192, 64]
        @ [0, 0, 224, 64, 0, 0, 0, 65, 0, 0, 16, 65] @ [0, 0])"

section \<open>The files, the clock and the compiler\<close>

text \<open>
  What the process reads and writes outside itself. A path names a regular file with its
  bytes, a directory (with the size \<open>stat\<close> reports for it) or nothing. \<open>clock\<close> is the
  reading of \<open>Date.now()\<close>, \<open>tmpdir\<close> the value of \<open>os.tmpdir()\<close>. The functions
  \<open>path.resolve\<close>, \<open>path.dirname\<close>, \<open>path.extname\<close> and \<open>path.basename\<close> and
  \<open>String.prototype.toLowerCase\<close> are taken as they are given: \<open>path_resolve\<close> is
  \<open>path.resolve\<close> of one argument, \<open>resolve_from p d\<close> is
  \<open>path.resolve(path.dirname(p), d)\<close>; \<open>path.join\<close> is computed, below. \<open>openscad_present\<close> tells whether
  \<open>openscad --version\<close> runs without error, and \<open>openscad out src fs\<close> is what
  \<open>openscad -o out src\<close> does on the files \<open>fs\<close> within its time limit: it exits with
  status 0 after writing the bytes of the mesh to \<open>out\<close>, or it fails with the text of its
  standard error and the message of the error object.
\<close>

datatype fsnode = File buffer | Dir nat

datatype exec_result = Exit0 buffer | ExecFailed string string

record world =
  files :: "string \<rightharpoonup> fsnode"
  clock :: nat
  tmpdir :: string
  path_resolve :: "string \<Rightarrow> string"
  extname :: "string \<Rightarrow> string"
  basename :: "string \<Rightarrow> string"
  resolve_from :: "string \<Rightarrow> jsstring \<Rightarrow> string"
  toLowerCase :: "string \<Rightarrow> string"
  openscad_present :: bool
  openscad :: "string \<Rightarrow> string \<Rightarrow> (string \<rightharpoonup> fsnode) \<Rightarrow> exec_result"

definition existsSync :: "world \<Rightarrow> string \<Rightarrow> bool" where
  "existsSync w p \<longleftrightarrow> files w p \<noteq> None"

text \<open>\<open>fsp.readFile(p)\<close>: the bytes of a regular file; an error for a directory, for a
  missing file, for a path that is \<open>null\<close>, and for a file of more than
  \<open>kIoMaxLength\<close> bytes (2 GiB less one), which \<open>readFile\<close> refuses with
  \<open>ERR_FS_FILE_TOO_LARGE\<close>.\<close>

definition kIoMaxLength :: nat where
  "kIoMaxLength = 2147483647"

definition readFile :: "world \<Rightarrow> string option \<Rightarrow> js_error + buffer" where
  "readFile w po =
     (case po of None \<Rightarrow> Inl TypeError
      | Some p \<Rightarrow>
          (case files w p of None \<Rightarrow> Inl (FsError ''ENOENT'')
           | Some (Dir n) \<Rightarrow> Inl (FsError ''EISDIR'')
           | Some (File b) \<Rightarrow>
               if kIoMaxLength < length b then Inl (FsError ''ERR_FS_FILE_TOO_LARGE'')
               else Inr b))"

text \<open>\<open>fs.statSync(p).size\<close>.\<close>

definition statSize :: "world \<Rightarrow> string \<Rightarrow> js_error + nat" where
  "statSize w p =
     (case files w p of None \<Rightarrow> Inl (FsError ''ENOENT'')
      | Some (Dir n) \<Rightarrow> Inr n
      | Some (File b) \<Rightarrow> Inr (length b))"

definition checkOpenSCAD :: "world \<Rightarrow> bool" where
  "checkOpenSCAD w = openscad_present w"

subsection \<open>compileScad\<close>

text \<open>The decimal digits of a number, as the template literal writes \<open>Date.now()\<close>.\<close>

fun digits :: "nat \<Rightarrow> nat list" where
  "digits n = (if n < 10 then [n] else digits (n div 10) @ [n mod 10])"

declare digits.simps [simp del]

definition show_nat :: "nat \<Rightarrow> string" where
  "show_nat n = map (\<lambda>d. char_of (48 + d)) (digits n)"

text \<open>
  \<open>path.join\<close> of two arguments, as the POSIX variant of the \<open>path\<close> module computes
  it: the arguments that are not empty are joined with a separator and the result is
  normalised. \<open>normalizeString\<close> goes through the segments of the path (the text between
  the separators) from left to right and keeps the segments of the result: an empty segment
  and \<open>.\<close> are dropped, \<open>..\<close> removes the segment before it (or stays, in a relative
  path, when there is none to remove), any other segment is kept. \<open>path_normalize\<close> puts
  the separators back, a leading one for an absolute path and a trailing one when the path
  ended with one.
\<close>

definition split_step :: "char \<Rightarrow> string list \<Rightarrow> string list" where
  "split_step c acc =
     (if c = CHR ''/'' then [] # acc
      else (case acc of [] \<Rightarrow> [[c]] | x # r \<Rightarrow> (c # x) # r))"

definition segments :: "string \<Rightarrow> string list" where
  "segments p = foldr split_step p [[]]"

definition norm_step :: "bool \<Rightarrow> string list \<Rightarrow> string \<Rightarrow> string list" where
  "norm_step allowAboveRoot res seg =
     (if seg = [] \<or> seg = ''.'' then res
      else if seg = ''..'' then
        (if res \<noteq> [] \<and> last res \<noteq> ''..'' then butlast res
         else if allowAboveRoot then res @ [''..''] else res)
      else res @ [seg])"

definition normalizeString :: "string \<Rightarrow> bool \<Rightarrow> string list" where
  "normalizeString p allowAboveRoot = foldl (norm_step allowAboveRoot) [] (segments p)"

fun join_segments :: "string list \<Rightarrow> string" where
  "join_segments [] = []"
| "join_segments [x] = x"
| "join_segments (x # y # r) = x @ ''/'' @ join_segments (y # r)"

definition path_normalize :: "string \<Rightarrow> string" where
  "path_normalize p =
     (if p = [] then ''.''
      else
        (let isAbsolute = (hd p = CHR ''/''); trailingSeparator = (last p = CHR ''/'');
             q = join_segments (normalizeString p (\<not> isAbsolute))
         in if q = [] then (if isAbsolute then ''/'' else if trailingSeparator then ''./'' else ''.'')
            else (if isAbsolute then ''/'' else []) @ q @ (if trailingSeparator then ''/'' else [])))"

definition path_join :: "string \<Rightarrow> string \<Rightarrow> string" where
  "path_join a b =
     (if a = [] \<and> b = [] then ''.''
      else if a = [] then path_normalize b
      else if b = [] then path_normalize a
      else path_normalize (a @ ''/'' @ b))"

text \<open>What \<open>path.join\<close> puts before a plain file name: the normalised directory and a
  separator.\<close>

definition join_prefix :: "string \<Rightarrow> string" where
  "join_prefix a =
     (if a = [] then []
      else (if hd a = CHR ''/'' then ''/'' else [])
           @ (if normalizeString a (hd a \<noteq> CHR ''/'') = [] then []
              else join_segments (normalizeString a (hd a \<noteq> CHR ''/'')) @ ''/''))"

definition tmpStl :: "world \<Rightarrow> string" where
  "tmpStl w = path_join (tmpdir w) (''openscad-viewer-'' @ show_nat (clock w) @ ''.stl'')"

record compile_result =
  stlPath :: "string option"
  error :: "string option"

text \<open>A value used as a condition: \<open>null\<close> and the empty string count as false.\<close>

fun truthy :: "string option \<Rightarrow> bool" where
  "truthy None = False"
| "truthy (Some e) = (e \<noteq> [])"

text \<open>
  \<open>compileScad\<close> chooses the output path when it is called and waits for the compiler.
  \<open>compile_finish\<close> is the rest of it, run when the compiler has ended: the result (the
  error of a failed run is \<open>err.stderr || err.message\<close>) and the files as the compiler left
  them. \<open>compileScad\<close> is the two with nothing running in between.
\<close>

definition compile_finish :: "string \<Rightarrow> exec_result \<Rightarrow> world \<Rightarrow> compile_result \<times> world" where
  "compile_finish out r w =
     (case r of
        Exit0 b \<Rightarrow> (\<lparr>stlPath = Some out, error = None\<rparr>, w\<lparr>files := (files w)(out \<mapsto> File b)\<rparr>)
      | ExecFailed err_stderr err_message \<Rightarrow>
          (\<lparr>stlPath = None,
            error = Some (if err_stderr \<noteq> [] then err_stderr else err_message)\<rparr>, w))"

definition compileScad :: "world \<Rightarrow> string \<Rightarrow> compile_result \<times> world" where
  "compileScad w scadPath =
     compile_finish (tmpStl w) (openscad w (tmpStl w) scadPath (files w)) w"

subsection \<open>parseScadDependencies\<close>

text \<open>One attempt of \<open>/(?:include|use)\s*<([^>]+)>/\<close> at the head of the text: the group
  and the text after the match. The two keywords start with different letters, the spaces are
  followed by \<open><\<close> and the group by \<open>>\<close>, so the longest runs are the only ones that
  can match.\<close>

definition match_dep :: "jsstring \<Rightarrow> (jsstring \<times> jsstring) option" where
  "match_dep s =
     (case (case strip_prefix (units ''include'') s of Some r \<Rightarrow> Some r
            | None \<Rightarrow> strip_prefix (units ''use'') s) of
        None \<Rightarrow> None
      | Some r0 \<Rightarrow>
          (case dropWhile is_space r0 of [] \<Rightarrow> None
           | c # r1 \<Rightarrow>
               if c = 60 \<and> takeWhile (\<lambda>c. c \<noteq> 62) r1 \<noteq> [] \<and> dropWhile (\<lambda>c. c \<noteq> 62) r1 \<noteq> []
               then Some (takeWhile (\<lambda>c. c \<noteq> 62) r1, tl (dropWhile (\<lambda>c. c \<noteq> 62) r1))
               else None))"

lemma match_dep_length:
  assumes "match_dep s = Some (g, r)"
  shows "length r < length s"
proof -
  from assms obtain r0 c r1 where
    a: "strip_prefix (units ''include'') s = Some r0 \<or> strip_prefix (units ''use'') s = Some r0"
       "dropWhile is_space r0 = c # r1" "r = tl (dropWhile (\<lambda>c. c \<noteq> 62) r1)"
    by (auto simp: match_dep_def split: option.splits list.splits if_splits)
  from a(1) have "length r0 \<le> length s"
    by (auto dest: strip_prefix_length)
  moreover have "length (c # r1) \<le> length r0"
    using length_dropWhile_le [of is_space r0] by (simp add: a(2))
  moreover have "length r \<le> length r1"
    using length_dropWhile_le [of "\<lambda>c. c \<noteq> 62" r1] by (simp add: a(3))
  ultimately show ?thesis by simp
qed

function dep_matches :: "jsstring \<Rightarrow> jsstring list" where
  "dep_matches [] = []"
| "dep_matches (c # cs) =
     (case match_dep (c # cs) of
        Some (g, rest) \<Rightarrow> g # dep_matches rest
      | None \<Rightarrow> dep_matches cs)"
  by pat_completeness auto
termination
  by (relation "measure length") (auto dest: match_dep_length)

text \<open>The dependencies that exist, in the order of the text; the empty list when the
  source cannot be read as a string (the \<open>catch\<close>).\<close>

definition parseScadDependencies :: "world \<Rightarrow> string \<Rightarrow> string list" where
  "parseScadDependencies w scadPath =
     (case readFile w (Some scadPath) of Inl e \<Rightarrow> []
      | Inr bytes \<Rightarrow>
          (case toString_utf8 bytes of Inl e \<Rightarrow> []
           | Inr content \<Rightarrow>
               filter (existsSync w) (map (resolve_from w scadPath) (dep_matches content))))"

section \<open>The state of the module\<close>

text \<open>
  The messages the server sends to a browser: the three events of \<open>broadcast\<close>, and a
  request with the identifier \<open>sendAndWait\<close> gave it. The body of a request or of a reply
  is kept as its JSON text.
\<close>

datatype event_msg = ModelUpdated | FileInfo string | ErrorEvent string

type_synonym json = string

datatype outbound = Event event_msg | Request nat json

datatype timer_action = RequestTimeout nat | Debounce

datatype outcome = Resolved json | Rejected js_error

text \<open>
  The variables of the module, and the part of the runtime they refer to. \<open>watcher\<close> is
  the list of files the open watcher watches (\<open>None\<close>: no watcher). A socket of
  \<open>wsClients\<close> is a number, \<open>readyState\<close> gives its state (1 is open) and \<open>sent\<close>
  the messages passed to \<open>ws.send\<close>, oldest first. \<open>timers\<close> holds the armed timers, each
  with its handle, the time it is due and its callback; \<open>timerSeq\<close> is the next handle.
  \<open>pendingRequests\<close> maps a request identifier to the handle of its timer (the two closures
  of the entry hold nothing else), and \<open>settled r\<close> lists the calls of \<open>resolve\<close> and
  \<open>reject\<close> made on the promise of request \<open>r\<close>, oldest first. \<open>resyncs\<close> lists the
  calls of \<open>handleFileChange\<close> made by the callback of the debounce timer, each with the
  time at which its timer was due.
\<close>

record state =
  currentFile :: "string option"
  currentStlPath :: "string option"
  currentStlBuffer :: "buffer option"
  lastBoundingBox :: "bbox option"
  watcher :: "string list option"
  debounceTimer :: "nat option"
  wsClients :: "nat list"
  pendingRequests :: "nat \<rightharpoonup> nat"
  requestIdCounter :: nat
  readyState :: "nat \<Rightarrow> nat"
  sent :: "(nat \<times> outbound) list"
  timers :: "(nat \<times> nat \<times> timer_action) list"
  timerSeq :: nat
  settled :: "nat \<Rightarrow> outcome list"
  resyncs :: "nat list"

definition init_state :: state where
  "init_state =
     \<lparr>currentFile = None, currentStlPath = None, currentStlBuffer = None,
      lastBoundingBox = None, watcher = None, debounceTimer = None, wsClients = [],
      pendingRequests = Map.empty, requestIdCounter = 0, readyState = (\<lambda>ws. 0), sent = [],
      timers = [], timerSeq = 0, settled = (\<lambda>r. []), resyncs = []\<rparr>"

subsection \<open>broadcast and setupWatcher\<close>

definition broadcast :: "outbound \<Rightarrow> state \<Rightarrow> state" where
  "broadcast msg s =
     s\<lparr>sent := sent s @ map (\<lambda>ws. (ws, msg)) (filter (\<lambda>ws. readyState s ws = 1) (wsClients s))\<rparr>"

text \<open>\<open>setupWatcher\<close> closes the watcher there is and watches the file and, for a
  \<open>.scad\<close> file, its dependencies.\<close>

definition setupWatcher :: "world \<Rightarrow> string \<Rightarrow> state \<Rightarrow> state" where
  "setupWatcher w filePath s =
     s\<lparr>watcher :=
         Some (filePath #
           (if toLowerCase w (extname w filePath) = ''.scad''
            then parseScadDependencies w filePath else []))\<rparr>"

subsection \<open>handleFileChange\<close>

text \<open>
  An \<open>async\<close> function runs from one \<open>await\<close> to the next without interruption, and
  anything else may run while it waits. \<open>handleFileChange\<close> is therefore three pieces: up to
  the call of the compiler or of \<open>readFile\<close>, from the result of the compiler to the call
  of \<open>readFile\<close>, and from the bytes read to the end. \<open>hfc_compiled\<close> reads
  \<open>currentFile\<close> again, as the source does (\<open>setupWatcher(currentFile)\<close>); a \<open>null\<close>
  there makes \<open>path.extname\<close> throw after the watcher was closed.
\<close>

datatype hfc_next = Finished | ReadNext "string option"

definition hfc_compiled :: "world \<Rightarrow> compile_result \<Rightarrow> state \<Rightarrow> (js_error + hfc_next) \<times> state" where
  "hfc_compiled w result s =
     (case currentFile s of None \<Rightarrow> (Inl TypeError, s\<lparr>watcher := None\<rparr>)
      | Some f \<Rightarrow>
          (let s1 = setupWatcher w f s
           in if truthy (error result) then
                (Inr Finished, broadcast (Event (ErrorEvent (the (error result)))) s1)
              else (Inr (ReadNext (stlPath result)), s1\<lparr>currentStlPath := stlPath result\<rparr>)))"

definition hfc_loaded :: "js_error + buffer \<Rightarrow> state \<Rightarrow> (js_error + unit) \<times> state" where
  "hfc_loaded r s =
     (case r of Inl e \<Rightarrow> (Inl e, s)
      | Inr buf \<Rightarrow>
          (case parseStlBoundingBox buf of
             Inl e \<Rightarrow> (Inl e, s\<lparr>currentStlBuffer := Some buf\<rparr>)
           | Inr bb \<Rightarrow>
               (Inr (),
                broadcast (Event ModelUpdated)
                  (s\<lparr>currentStlBuffer := Some buf, lastBoundingBox := Some bb\<rparr>))))"

text \<open>\<open>handleFileChange\<close> with nothing running between its pieces: the result, the
  files as the compiler left them, and the state.\<close>

definition handleFileChange :: "world \<Rightarrow> state \<Rightarrow> (js_error + unit) \<times> world \<times> state" where
  "handleFileChange w s =
     (case currentFile s of None \<Rightarrow> (Inl TypeError, w, s)
      | Some f \<Rightarrow>
          if toLowerCase w (extname w f) = ''.scad'' then
            (case compileScad w f of
               (result, w') \<Rightarrow>
                 (case hfc_compiled w' result s of
                    (Inl e, s1) \<Rightarrow> (Inl e, w', s1)
                  | (Inr Finished, s1) \<Rightarrow> (Inr (), w', s1)
                  | (Inr (ReadNext p), s1) \<Rightarrow>
                      (case hfc_loaded (readFile w' p) s1 of (r, s2) \<Rightarrow> (r, w', s2))))
          else (case hfc_loaded (readFile w (Some f)) s of (r, s1) \<Rightarrow> (r, w, s1)))"

subsection \<open>openFile\<close>

record open_result =
  success :: bool
  file' :: string
  fileSize :: nat
  boundingBox :: bbox

text \<open>Up to the first \<open>await\<close>: the resolved path and whether it is a \<open>.scad\<close> file.
  For a \<open>.stl\<close> file \<open>currentStlPath\<close> is assigned before \<open>readFile\<close> is awaited.\<close>

definition openFile_begin :: "world \<Rightarrow> string \<Rightarrow> state \<Rightarrow> (js_error + string \<times> bool) \<times> state" where
  "openFile_begin w filePath s =
     (let absPath = path_resolve w filePath
      in if \<not> existsSync w absPath then (Inl (Error (''File not found: '' @ absPath)), s)
         else
           (let ext = toLowerCase w (extname w absPath)
            in if ext \<noteq> ''.scad'' \<and> ext \<noteq> ''.stl'' then
                 (Inl (Error (''Unsupported file type: '' @ ext
                                @ ''. Only .scad and .stl are supported.'')), s)
               else if ext = ''.scad'' then (Inr (absPath, True), s)
               else (Inr (absPath, False), s\<lparr>currentStlPath := Some absPath\<rparr>)))"

text \<open>From the result of the compiler to the call of \<open>readFile\<close>.\<close>

definition openFile_compiled :: "compile_result \<Rightarrow> state \<Rightarrow> (js_error + string option) \<times> state" where
  "openFile_compiled result s =
     (if truthy (error result) then
        (Inl (Error (''OpenSCAD compilation failed:'' @ [CHR 0x0A] @ the (error result))), s)
      else (Inr (stlPath result), s\<lparr>currentStlPath := stlPath result\<rparr>))"

text \<open>From the bytes read to the end.\<close>

definition openFile_loaded ::
  "world \<Rightarrow> string \<Rightarrow> js_error + buffer \<Rightarrow> state \<Rightarrow> (js_error + open_result) \<times> state" where
  "openFile_loaded w absPath r s =
     (case r of Inl e \<Rightarrow> (Inl e, s)
      | Inr buf \<Rightarrow>
          (let s1 = s\<lparr>currentStlBuffer := Some buf, currentFile := Some absPath\<rparr>
           in case parseStlBoundingBox buf of Inl e \<Rightarrow> (Inl e, s1)
              | Inr bb \<Rightarrow>
                  (let s2 = broadcast (Event (FileInfo (basename w absPath)))
                              (broadcast (Event ModelUpdated)
                                (setupWatcher w absPath (s1\<lparr>lastBoundingBox := Some bb\<rparr>)))
                   in case statSize w absPath of Inl e \<Rightarrow> (Inl e, s2)
                      | Inr n \<Rightarrow>
                          (Inr \<lparr>success = True, file' = absPath, fileSize = n, boundingBox = bb\<rparr>,
                           s2))))"

text \<open>\<open>openFile\<close> with nothing running between its pieces.\<close>

definition openFile :: "world \<Rightarrow> string \<Rightarrow> state \<Rightarrow> (js_error + open_result) \<times> world \<times> state" where
  "openFile w filePath s =
     (case openFile_begin w filePath s of
        (Inl e, s1) \<Rightarrow> (Inl e, w, s1)
      | (Inr (absPath, scad), s1) \<Rightarrow>
          if scad then
            (if \<not> checkOpenSCAD w then
               (Inl (Error ''OpenSCAD is not installed or not found on $PATH''), w, s1)
             else
               (case compileScad w absPath of
                  (result, w') \<Rightarrow>
                    (case openFile_compiled result s1 of
                       (Inl e, s2) \<Rightarrow> (Inl e, w', s2)
                     | (Inr p, s2) \<Rightarrow>
                         (case openFile_loaded w' absPath (readFile w' p) s2 of
                            (r, s3) \<Rightarrow> (r, w', s3)))))
          else
            (case openFile_loaded w absPath (readFile w (Some absPath)) s1 of
               (r, s2) \<Rightarrow> (r, w, s2)))"

subsection \<open>What Open answers\<close>

text \<open>
  The answer of Open in the words of its contract: the four failures with their messages, in
  the order in which they are checked, and otherwise what becomes of the mesh
  (\<open>mesh_outcome\<close>): the error of reading it, the error of the parser (the mesh is read as
  text and is too long to be a string), or the success record with the box the parser
  returns. \<open>size_of\<close> is the size \<open>stat\<close> reports. A compiler that fails without any
  text leaves no error to report, and reading the path \<open>null\<close> then fails.
\<close>

definition size_of :: "world \<Rightarrow> string \<Rightarrow> nat" where
  "size_of w p = (case statSize w p of Inr n \<Rightarrow> n | Inl e \<Rightarrow> 0)"

definition mesh_outcome :: "string \<Rightarrow> nat \<Rightarrow> js_error + buffer \<Rightarrow> js_error + open_result" where
  "mesh_outcome absPath n r =
     (case r of Inl e \<Rightarrow> Inl e
      | Inr b \<Rightarrow>
          (case parseStlBoundingBox b of Inl e \<Rightarrow> Inl e
           | Inr bb \<Rightarrow> Inr \<lparr>success = True, file' = absPath, fileSize = n, boundingBox = bb\<rparr>))"

definition open_outcome :: "world \<Rightarrow> string \<Rightarrow> js_error + open_result" where
  "open_outcome w filePath =
     (let absPath = path_resolve w filePath; ext = toLowerCase w (extname w absPath)
      in if \<not> existsSync w absPath then Inl (Error (''File not found: '' @ absPath))
         else if ext \<noteq> ''.scad'' \<and> ext \<noteq> ''.stl'' then
           Inl (Error (''Unsupported file type: '' @ ext @ ''. Only .scad and .stl are supported.''))
         else if ext = ''.scad'' then
           (if \<not> openscad_present w then
              Inl (Error ''OpenSCAD is not installed or not found on $PATH'')
            else
              (case openscad w (tmpStl w) absPath (files w) of
                 ExecFailed err_stderr err_message \<Rightarrow>
                   if err_stderr \<noteq> [] then
                     Inl (Error (''OpenSCAD compilation failed:'' @ [CHR 0x0A] @ err_stderr))
                   else if err_message \<noteq> [] then
                     Inl (Error (''OpenSCAD compilation failed:'' @ [CHR 0x0A] @ err_message))
                   else Inl TypeError
               | Exit0 b \<Rightarrow>
                   (let w' = w\<lparr>files := (files w)(tmpStl w \<mapsto> File b)\<rparr>
                    in mesh_outcome absPath (size_of w' absPath) (readFile w' (Some (tmpStl w))))))
         else mesh_outcome absPath (size_of w absPath) (readFile w (Some absPath)))"

subsection \<open>A resynchronisation overtaken by Open\<close>


subsection \<open>A small world for the examples\<close>

text \<open>
  A directory \<open>/m\<close> with three sources that compile (\<open>a.scad\<close>, which reads
  \<open>use <l.scad>\<close>, \<open>l.scad\<close> and \<open>c.scad\<close>), one that does not (\<open>bad.scad\<close>,
  which reads \<open>include <l.scad>\<close>), a mesh file \<open>b.stl\<close> of one byte, a directory
  named \<open>d.stl\<close> and a file \<open>x.obj\<close>.
  The compiler writes the byte 65 for \<open>a.scad\<close> and 67 for \<open>c.scad\<close> and fails on
  every other source. All paths are absolute, normalised and in lower case, so that
  \<open>path.resolve\<close> and \<open>toLowerCase\<close> change nothing; \<open>demo_extname\<close> (the text
  from the last dot) and \<open>demo_basename\<close> (the text after the last separator) are
  \<open>path.extname\<close> and \<open>path.basename\<close> on these paths. \<open>demo_state\<close> is the
  initial state with one browser connected, its socket open.
\<close>

definition demo_extname :: "string \<Rightarrow> string" where
  "demo_extname p =
     (if CHR ''.'' \<in> set p then CHR ''.'' # rev (takeWhile (\<lambda>c. c \<noteq> CHR ''.'') (rev p)) else [])"

definition demo_basename :: "string \<Rightarrow> string" where
  "demo_basename p = rev (takeWhile (\<lambda>c. c \<noteq> CHR ''/'') (rev p))"

definition demo_openscad :: "string \<Rightarrow> string \<Rightarrow> (string \<rightharpoonup> fsnode) \<Rightarrow> exec_result" where
  "demo_openscad out src fs =
     (if src = ''/m/a.scad'' then Exit0 [65]
      else if src = ''/m/c.scad'' then Exit0 [67]
      else ExecFailed ''ERROR: Parser error in line 1'' ''Command failed: openscad'')"

definition demo_world :: world where
  "demo_world =
     \<lparr>files = [''/m/a.scad'' \<mapsto> File [117, 115, 101, 32, 60, 108, 46, 115, 99, 97, 100, 62],
               ''/m/l.scad'' \<mapsto> File [], ''/m/c.scad'' \<mapsto> File [],
               ''/m/bad.scad'' \<mapsto>
                 File [105, 110, 99, 108, 117, 100, 101, 32, 60, 108, 46, 115, 99, 97, 100, 62],
               ''/m/b.stl'' \<mapsto> File [66], ''/m/d.stl'' \<mapsto> Dir 4096, ''/m/x.obj'' \<mapsto> File []],
      clock = 1700000000000, tmpdir = ''/tmp'', path_resolve = (\<lambda>p. p),
      extname = demo_extname, basename = demo_basename,
      resolve_from = (\<lambda>p d. ''/m/'' @ map char_of d), toLowerCase = (\<lambda>p. p),
      openscad_present = True, openscad = demo_openscad\<rparr>"

definition demo_state :: state where
  "demo_state = init_state\<lparr>wsClients := [7], readyState := (\<lambda>ws. if ws = 7 then 1 else 0)\<rparr>"

text \<open>A state in which \<open>/m/bad.scad\<close> is the open model, one browser is connected,
  and the mesh of an earlier compilation is served. The watcher watches the source alone: it
  was set up when the file \<open>l.scad\<close> the source includes was not there yet.\<close>

definition demo_loaded :: state where
  "demo_loaded =
     demo_state\<lparr>currentFile := Some ''/m/bad.scad'', currentStlPath := Some ''/tmp/old.stl'',
                currentStlBuffer := Some [65], lastBoundingBox := Some empty_box,
                watcher := Some [''/m/bad.scad'']\<rparr>"



section \<open>The peer channel and the timers\<close>

subsection \<open>Timers and promises\<close>

text \<open>\<open>setTimeout\<close> at the time \<open>now\<close> arms a timer under a fresh handle;
  \<open>clearTimeout\<close> disarms the timer of a handle, if it is still armed.\<close>

definition setTimeout :: "nat \<Rightarrow> nat \<Rightarrow> timer_action \<Rightarrow> state \<Rightarrow> nat \<times> state" where
  "setTimeout now ms cb s =
     (timerSeq s, s\<lparr>timers := timers s @ [(timerSeq s, now + ms, cb)], timerSeq := timerSeq s + 1\<rparr>)"

definition clearTimeout :: "nat \<Rightarrow> state \<Rightarrow> state" where
  "clearTimeout h s = s\<lparr>timers := filter (\<lambda>t. fst t \<noteq> h) (timers s)\<rparr>"

text \<open>A call of \<open>resolve\<close> or \<open>reject\<close> of the promise of request \<open>r\<close>.\<close>

definition settle :: "nat \<Rightarrow> outcome \<Rightarrow> state \<Rightarrow> state" where
  "settle r out s = s\<lparr>settled := (settled s)(r := settled s r @ [out])\<rparr>"

subsection \<open>sendAndWait\<close>

definition sendAndWait :: "nat \<Rightarrow> json \<Rightarrow> nat \<Rightarrow> state \<Rightarrow> nat \<times> state" where
  "sendAndWait now msg timeoutMs s =
     (let requestId = requestIdCounter s + 1;
          s1 = s\<lparr>requestIdCounter := requestId\<rparr>;
          timer = fst (setTimeout now timeoutMs (RequestTimeout requestId) s1);
          s2 = snd (setTimeout now timeoutMs (RequestTimeout requestId) s1);
          s3 = s2\<lparr>pendingRequests := (pendingRequests s2)(requestId \<mapsto> timer)\<rparr>
      in case find (\<lambda>ws. readyState s3 ws = 1) (wsClients s3) of
           Some ws \<Rightarrow> (requestId, s3\<lparr>sent := sent s3 @ [(ws, Request requestId msg)]\<rparr>)
         | None \<Rightarrow>
             (requestId,
              settle requestId (Rejected (Error ''No browser connected''))
                ((clearTimeout timer s3)\<lparr>pendingRequests := (pendingRequests s3)(requestId := None)\<rparr>)))"

subsection \<open>A message from a browser\<close>

text \<open>
  What \<open>JSON.parse\<close> makes of a message: nothing (it throws, and so does reading a
  property of \<open>null\<close>; both are caught), or a value with its \<open>requestId\<close> when that is an
  integer (\<open>None\<close> otherwise: no other value is a key of the table) and its text.
\<close>

datatype inbound = Unparsable | Message "int option" json

text \<open>The \<open>resolve\<close> closure of the entry of request \<open>requestId\<close>, which holds
  \<open>timer\<close>.\<close>

definition entry_resolve :: "nat \<Rightarrow> nat \<Rightarrow> json \<Rightarrow> state \<Rightarrow> state" where
  "entry_resolve requestId timer data s =
     settle requestId (Resolved data)
       ((clearTimeout timer s)\<lparr>pendingRequests := (pendingRequests s)(requestId := None)\<rparr>)"

definition on_message :: "inbound \<Rightarrow> state \<Rightarrow> state" where
  "on_message raw s =
     (case raw of Unparsable \<Rightarrow> s
      | Message rid data \<Rightarrow>
          (case rid of None \<Rightarrow> s
           | Some n \<Rightarrow>
               if n \<noteq> 0 \<and> 0 \<le> n then
                 (case pendingRequests s (nat n) of None \<Rightarrow> s
                  | Some timer \<Rightarrow> entry_resolve (nat n) timer data s)
               else s))"

subsection \<open>A timer fires\<close>

text \<open>
  The callback of a request's timer deletes the entry and rejects the promise. The callback
  of the debounce timer calls \<open>handleFileChange\<close>; the call is recorded with the time
  \<open>due\<close> of the timer, and its run is \<open>handleFileChange\<close> above. No callback arms or
  disarms a timer.
\<close>

definition run_callback :: "nat \<Rightarrow> timer_action \<Rightarrow> state \<Rightarrow> state" where
  "run_callback due cb s =
     (case cb of
        RequestTimeout requestId \<Rightarrow>
          settle requestId (Rejected (Error ''Timeout waiting for browser response''))
            (s\<lparr>pendingRequests := (pendingRequests s)(requestId := None)\<rparr>)
      | Debounce \<Rightarrow> s\<lparr>resyncs := resyncs s @ [due]\<rparr>)"

text \<open>The timer of handle \<open>h\<close> fires: it is disarmed and its callback runs. Nothing
  happens for a handle that is not armed (a timer fires once, and not after
  \<open>clearTimeout\<close>).\<close>

definition timer_fires :: "nat \<Rightarrow> state \<Rightarrow> state" where
  "timer_fires h s =
     (case find (\<lambda>t. fst t = h) (timers s) of None \<Rightarrow> s
      | Some t \<Rightarrow> run_callback (fst (snd t)) (snd (snd t)) (clearTimeout h s))"

text \<open>Time passes until \<open>now\<close>: the timers due by then fire, the earliest first.\<close>

definition advance :: "nat \<Rightarrow> state \<Rightarrow> state" where
  "advance now s =
     foldl (\<lambda>s h. timer_fires h s) s
       (map fst (sort_key (\<lambda>t. fst (snd t)) (filter (\<lambda>t. fst (snd t) \<le> now) (timers s))))"

subsection \<open>A change of a watched file\<close>

text \<open>The \<open>change\<close> callback that \<open>setupWatcher\<close> registers, called at the time
  \<open>now\<close>.\<close>

definition on_change :: "nat \<Rightarrow> state \<Rightarrow> state" where
  "on_change now s =
     (let s1 = (case debounceTimer s of Some h \<Rightarrow> clearTimeout h s | None \<Rightarrow> s)
      in (snd (setTimeout now 300 Debounce s1))\<lparr>debounceTimer := Some (fst (setTimeout now 300 Debounce s1))\<rparr>)"

text \<open>A burst of changes at the times \<open>ts\<close>, the timers firing when they are due.\<close>

definition changes_at :: "nat list \<Rightarrow> state \<Rightarrow> state" where
  "changes_at ts s = foldl (\<lambda>s t. on_change t (advance t s)) s ts"

text \<open>A browser connects (the \<open>connection\<close> handler) and disconnects (\<open>close\<close>).\<close>

definition on_connection :: "world \<Rightarrow> nat \<Rightarrow> state \<Rightarrow> state" where
  "on_connection w ws s =
     (let s1 = s\<lparr>wsClients := (if ws \<in> set (wsClients s) then wsClients s else wsClients s @ [ws])\<rparr>
      in case currentFile s1 of None \<Rightarrow> s1
         | Some f \<Rightarrow>
             s1\<lparr>sent := sent s1 @ [(ws, Event (FileInfo (basename w f))), (ws, Event ModelUpdated)]\<rparr>)"

definition on_close :: "nat \<Rightarrow> state \<Rightarrow> state" where
  "on_close ws s = s\<lparr>wsClients := removeAll ws (wsClients s)\<rparr>"

subsection \<open>What the process does, one step after the other\<close>

text \<open>
  The steps of the process: a request is sent, a message arrives, a timer fires, time
  passes, a watched file changes, a browser connects or disconnects or changes the state of
  its socket, Open runs, the handler of a change runs. The last two carry the files and the
  clock they find.
\<close>

datatype step =
    Send nat json nat
  | Receive inbound
  | Fire nat
  | Advance nat
  | Change nat
  | Connect world nat
  | Close nat
  | SocketState nat nat
  | Open world string
  | Resync world

fun do_step :: "step \<Rightarrow> state \<Rightarrow> state" where
  "do_step (Send now msg timeoutMs) s = snd (sendAndWait now msg timeoutMs s)"
| "do_step (Receive raw) s = on_message raw s"
| "do_step (Fire h) s = timer_fires h s"
| "do_step (Advance now) s = advance now s"
| "do_step (Change now) s = on_change now s"
| "do_step (Connect w ws) s = on_connection w ws s"
| "do_step (Close ws) s = on_close ws s"
| "do_step (SocketState ws st) s = s\<lparr>readyState := (readyState s)(ws := st)\<rparr>"
| "do_step (Open w filePath) s = snd (snd (openFile w filePath s))"
| "do_step (Resync w) s = snd (snd (handleFileChange w s))"

definition run :: "step list \<Rightarrow> state \<Rightarrow> state" where
  "run steps s = foldl (\<lambda>s e. do_step e s) s steps"

text \<open>
  What holds of the table, the timers and the promises in every state the process reaches:
  handles are fresh and armed once; a request in the table has an identifier already given
  out, a promise not settled and its timer armed; an armed request timer belongs to the entry
  of its request; a promise is settled at most once, and not before its identifier is given
  out; the handle in \<open>debounceTimer\<close> is one of a debounce timer.
\<close>

definition inv_handles :: "state \<Rightarrow> bool" where
  "inv_handles s \<longleftrightarrow> distinct (map fst (timers s)) \<and> (\<forall>t \<in> set (timers s). fst t < timerSeq s)"

definition inv_table :: "state \<Rightarrow> bool" where
  "inv_table s \<longleftrightarrow>
     (\<forall>r h. pendingRequests s r = Some h \<longrightarrow>
        0 < r \<and> r \<le> requestIdCounter s \<and> settled s r = []
        \<and> (\<exists>due. (h, due, RequestTimeout r) \<in> set (timers s)))"

definition inv_timers :: "state \<Rightarrow> bool" where
  "inv_timers s \<longleftrightarrow>
     (\<forall>h due r. (h, due, RequestTimeout r) \<in> set (timers s) \<longrightarrow> pendingRequests s r = Some h)"

definition inv_promises :: "state \<Rightarrow> bool" where
  "inv_promises s \<longleftrightarrow>
     (\<forall>r. requestIdCounter s < r \<longrightarrow> settled s r = []) \<and> (\<forall>r. length (settled s r) \<le> 1)"

definition inv_debounce :: "state \<Rightarrow> bool" where
  "inv_debounce s \<longleftrightarrow>
     (\<forall>h. debounceTimer s = Some h \<longrightarrow>
        h < timerSeq s \<and> (\<forall>due cb. (h, due, cb) \<in> set (timers s) \<longrightarrow> cb = Debounce))"

definition chan_inv :: "state \<Rightarrow> bool" where
  "chan_inv s \<longleftrightarrow> inv_handles s \<and> inv_table s \<and> inv_timers s \<and> inv_promises s \<and> inv_debounce s"

text \<open>The part of the state the channel and the timers live in.\<close>

definition chan_of :: "state \<Rightarrow> (nat \<times> nat \<times> timer_action) list \<times> nat \<times> (nat \<rightharpoonup> nat) \<times> nat
    \<times> (nat \<Rightarrow> outcome list) \<times> nat option \<times> nat list" where
  "chan_of s =
     (timers s, timerSeq s, pendingRequests s, requestIdCounter s, settled s, debounceTimer s,
      resyncs s)"

text \<open>The three places that complete a request do the same three things: they disarm
  its timer (or find it disarmed, having fired), delete its entry and settle its promise.\<close>

definition complete :: "nat \<Rightarrow> nat \<Rightarrow> outcome \<Rightarrow> state \<Rightarrow> state" where
  "complete r h out s =
     settle r out ((clearTimeout h s)\<lparr>pendingRequests := (pendingRequests s)(r := None)\<rparr>)"

text \<open>The first half of \<open>sendAndWait\<close>: the identifier, the timer and the entry.\<close>

definition registered :: "nat \<Rightarrow> nat \<Rightarrow> state \<Rightarrow> state" where
  "registered now timeoutMs s =
     s\<lparr>requestIdCounter := requestIdCounter s + 1,
       timers := timers s @ [(timerSeq s, now + timeoutMs, RequestTimeout (requestIdCounter s + 1))],
       timerSeq := timerSeq s + 1,
       pendingRequests := (pendingRequests s)(requestIdCounter s + 1 \<mapsto> timerSeq s)\<rparr>"

text \<open>A request is finished when its identifier was given out and the table has no
  entry for it.\<close>

definition finished :: "state \<Rightarrow> nat \<Rightarrow> bool" where
  "finished s r \<longleftrightarrow> pendingRequests s r = None \<and> r \<le> requestIdCounter s"

text \<open>The state in which one request was sent to the browser of \<open>demo_state\<close>.\<close>

definition demo_waiting :: state where
  "demo_waiting = snd (sendAndWait 1000 ''{}'' 10000 demo_state)"

text \<open>The armed debounce timers.\<close>

definition debounce_armed :: "state \<Rightarrow> (nat \<times> nat \<times> timer_action) list" where
  "debounce_armed s = filter (\<lambda>t. snd (snd t) = Debounce) (timers s)"

text \<open>A burst of changes: each change comes less than 300 ms after the one before.\<close>

fun within_window :: "nat list \<Rightarrow> bool" where
  "within_window [] = True"
| "within_window [t] = True"
| "within_window (t # t' # ts) = (t \<le> t' \<and> t' < t + 300 \<and> within_window (t' # ts))"

text \<open>During a burst that began at a quiet moment, one debounce timer is armed: that of
  the last change, whose handle \<open>debounceTimer\<close> holds.\<close>

definition waiting_since :: "nat \<Rightarrow> state \<Rightarrow> bool" where
  "waiting_since t s \<longleftrightarrow>
     chan_inv s \<and> (\<exists>h. debounceTimer s = Some h \<and> debounce_armed s = [(h, t + 300, Debounce)])"

section \<open>Properties of the parser\<close>

subsection \<open>The binary scan reads every vertex, inside the buffer\<close>

lemma read_vertex_ok:
  "off + 12 \<le> length buf \<Longrightarrow>
   read_vertex buf off =
     Inr (f32_value (le32 buf off), f32_value (le32 buf (off + 4)), f32_value (le32 buf (off + 8)))"
  by (simp add: read_vertex_def readFloatLE_def)

lemma vertex_loop_from:
  "base + 36 \<le> length buf \<Longrightarrow> v \<le> 3 \<Longrightarrow>
   vertex_loop buf base v b =
     Inr (foldl fold_vertex b
       (map (\<lambda>v. (f32_value (le32 buf (base + v * 12)), f32_value (le32 buf (base + v * 12 + 4)),
                   f32_value (le32 buf (base + v * 12 + 8)))) [v..<3]))"
proof (induction buf base v b rule: vertex_loop.induct)
  case (1 buf base v b)
  show ?case
  proof (cases "v < 3")
    case True
    then have "base + v * 12 + 12 \<le> length buf"
      using "1.prems"(1) by arith
    then have r: "read_vertex buf (base + v * 12) =
        Inr (f32_value (le32 buf (base + v * 12)), f32_value (le32 buf (base + v * 12 + 4)),
             f32_value (le32 buf (base + v * 12 + 8)))"
      by (rule read_vertex_ok)
    have u: "[v..<3] = v # [v + 1..<3]"
      using True by (simp add: upt_rec)
    show ?thesis
      using True r "1.IH" [OF True r] "1.prems"(1)
      by (subst vertex_loop.simps, subst u) simp
  next
    case False
    with "1.prems" have "v = 3" by simp
    then show ?thesis by (subst vertex_loop.simps) simp
  qed
qed

lemma vertex_loop_ok:
  assumes "84 + i * 50 + 50 \<le> length buf"
  shows "vertex_loop buf (84 + i * 50 + 12) 0 b =
         Inr (foldl fold_vertex b (map (vertex_at buf i) [0..<3]))"
proof -
  have "84 + i * 50 + 12 + 36 \<le> length buf"
    using assms by arith
  then show ?thesis
    by (simp add: vertex_loop_from vertex_at_def [abs_def])
qed

lemma triangle_loop_ok:
  "84 + n * 50 \<le> length buf \<Longrightarrow> i \<le> n \<Longrightarrow>
   triangle_loop buf n i b =
     Inr (foldl fold_vertex b (concat (map (\<lambda>i. map (vertex_at buf i) [0..<3]) [i..<n])))"
proof (induction buf n i b rule: triangle_loop.induct)
  case (1 buf n i b)
  show ?case
  proof (cases "i < n")
    case True
    then have "84 + i * 50 + 50 \<le> length buf"
      using "1.prems"(1) by arith
    then have v: "vertex_loop buf (84 + i * 50 + 12) 0 b =
        Inr (foldl fold_vertex b (map (vertex_at buf i) [0..<3]))"
      by (rule vertex_loop_ok)
    have u: "[i..<n] = i # [i + 1..<n]"
      using True by (simp add: upt_rec)
    show ?thesis
      using True v "1.IH" [OF True v] "1.prems"(1)
      by (subst triangle_loop.simps, subst u) simp
  next
    case False
    with "1.prems" have "i = n" by simp
    then show ?thesis by (subst triangle_loop.simps) simp
  qed
qed

lemma triangle_loop_mesh:
  "84 + n * 50 \<le> length buf \<Longrightarrow>
   triangle_loop buf n 0 b = Inr (foldl fold_vertex b (mesh_vertices buf n))"
  by (simp add: triangle_loop_ok mesh_vertices_def)

subsection \<open>The fold of Math.min and Math.max\<close>

lemma num_le_refl: "a \<noteq> NaN \<Longrightarrow> num_le a a"
  by (cases a) auto

lemma num_le_trans: "num_le a b \<Longrightarrow> num_le b c \<Longrightarrow> num_le a c"
  by (cases a; cases b; cases c) auto

lemma num_le_total: "a \<noteq> NaN \<Longrightarrow> b \<noteq> NaN \<Longrightarrow> num_le a b \<or> num_le b a"
  by (cases a; cases b) auto

lemma num_le_PosInf: "num_le PosInf x \<Longrightarrow> x = PosInf"
  by (cases x) auto

lemma num_le_NegInf: "num_le x NegInf \<Longrightarrow> x = NegInf"
  by (cases x) auto

lemma foldl_fold_vertex_min:
  "bmin (foldl fold_vertex b vs) =
     (foldl Math_min (fst (bmin b)) (xs_of vs), foldl Math_min (fst (snd (bmin b))) (ys_of vs),
      foldl Math_min (snd (snd (bmin b))) (zs_of vs))"
  by (induction vs arbitrary: b)
     (auto simp: fold_vertex_def xs_of_def ys_of_def zs_of_def split: prod.splits)

lemma foldl_fold_vertex_max:
  "bmax (foldl fold_vertex b vs) =
     (foldl Math_max (fst (bmax b)) (xs_of vs), foldl Math_max (fst (snd (bmax b))) (ys_of vs),
      foldl Math_max (snd (snd (bmax b))) (zs_of vs))"
  by (induction vs arbitrary: b)
     (auto simp: fold_vertex_def xs_of_def ys_of_def zs_of_def split: prod.splits)

lemma foldl_min_NaN_start: "foldl Math_min NaN xs = NaN"
  by (induction xs) (auto simp: Math_min_def)

lemma foldl_max_NaN_start: "foldl Math_max NaN xs = NaN"
  by (induction xs) (auto simp: Math_max_def)

lemma foldl_min_NaN: "NaN \<in> set xs \<Longrightarrow> foldl Math_min m xs = NaN"
  by (induction xs arbitrary: m) (auto simp: Math_min_def foldl_min_NaN_start)

lemma foldl_max_NaN: "NaN \<in> set xs \<Longrightarrow> foldl Math_max m xs = NaN"
  by (induction xs arbitrary: m) (auto simp: Math_max_def foldl_max_NaN_start)

lemma foldl_min_spec:
  "NaN \<notin> set xs \<Longrightarrow> m \<noteq> NaN \<Longrightarrow>
   foldl Math_min m xs \<noteq> NaN \<and> (foldl Math_min m xs = m \<or> foldl Math_min m xs \<in> set xs)
   \<and> num_le (foldl Math_min m xs) m \<and> (\<forall>x \<in> set xs. num_le (foldl Math_min m xs) x)"
proof (induction xs arbitrary: m)
  case Nil
  then show ?case by (simp add: num_le_refl)
next
  case (Cons x xs)
  let ?m = "Math_min m x"
  from Cons.prems have x: "x \<noteq> NaN" "NaN \<notin> set xs" by auto
  with Cons.prems have m': "?m \<noteq> NaN" "?m = m \<or> ?m = x" "num_le ?m m" "num_le ?m x"
    using num_le_total [of m x] by (auto simp: Math_min_def num_le_refl)
  from Cons.IH [OF x(2) m'(1)] m' show ?case
    by (auto intro: num_le_trans)
qed

lemma foldl_max_spec:
  "NaN \<notin> set xs \<Longrightarrow> m \<noteq> NaN \<Longrightarrow>
   foldl Math_max m xs \<noteq> NaN \<and> (foldl Math_max m xs = m \<or> foldl Math_max m xs \<in> set xs)
   \<and> num_le m (foldl Math_max m xs) \<and> (\<forall>x \<in> set xs. num_le x (foldl Math_max m xs))"
proof (induction xs arbitrary: m)
  case Nil
  then show ?case by (simp add: num_le_refl)
next
  case (Cons x xs)
  let ?m = "Math_max m x"
  from Cons.prems have x: "x \<noteq> NaN" "NaN \<notin> set xs" by auto
  with Cons.prems have m': "?m \<noteq> NaN" "?m = m \<or> ?m = x" "num_le m ?m" "num_le x ?m"
    using num_le_total [of m x] by (auto simp: Math_max_def num_le_refl)
  from Cons.IH [OF x(2) m'(1)] m' show ?case
    by (auto intro: num_le_trans)
qed

lemma foldl_min_least:
  assumes "NaN \<notin> set xs" "xs \<noteq> []"
  shows "is_least (foldl Math_min PosInf xs) xs"
proof -
  let ?r = "foldl Math_min PosInf xs"
  from foldl_min_spec [OF assms(1), of PosInf]
  have s: "?r = PosInf \<or> ?r \<in> set xs" "\<forall>x \<in> set xs. num_le ?r x" by auto
  have "?r \<in> set xs"
  proof (cases "?r = PosInf")
    case True
    from assms(2) obtain x where x: "x \<in> set xs" by (cases xs) auto
    with s(2) True have "x = PosInf" by (auto dest: num_le_PosInf)
    with x True show ?thesis by simp
  next
    case False
    with s(1) show ?thesis by simp
  qed
  with s(2) show ?thesis by (simp add: is_least_def)
qed

lemma foldl_max_greatest:
  assumes "NaN \<notin> set xs" "xs \<noteq> []"
  shows "is_greatest (foldl Math_max NegInf xs) xs"
proof -
  let ?r = "foldl Math_max NegInf xs"
  from foldl_max_spec [OF assms(1), of NegInf]
  have s: "?r = NegInf \<or> ?r \<in> set xs" "\<forall>x \<in> set xs. num_le x ?r" by auto
  have "?r \<in> set xs"
  proof (cases "?r = NegInf")
    case True
    from assms(2) obtain x where x: "x \<in> set xs" by (cases xs) auto
    with s(2) True have "x = NegInf" by (auto dest: num_le_NegInf)
    with x True show ?thesis by simp
  next
    case False
    with s(1) show ?thesis by simp
  qed
  with s(2) show ?thesis by (simp add: is_greatest_def)
qed

lemma axis_bounds_fold:
  "xs \<noteq> [] \<Longrightarrow> axis_bounds (foldl Math_min PosInf xs) (foldl Math_max NegInf xs) xs"
  by (simp add: axis_bounds_def foldl_min_NaN foldl_max_NaN foldl_min_least foldl_max_greatest)

lemma mesh_vertices_nonempty: "1 \<le> n \<Longrightarrow> mesh_vertices buf n \<noteq> []"
  by (cases n) (auto simp: mesh_vertices_def upt_rec)

lemma min_x_PosInf:
  assumes "foldl Math_min PosInf xs = PosInf" "x \<in> set xs"
  shows "x = PosInf"
proof -
  have "NaN \<notin> set xs"
    using assms(1) foldl_min_NaN [of xs PosInf] by auto
  from foldl_min_spec [OF this, of PosInf] assms show ?thesis
    by (auto dest: num_le_PosInf)
qed

lemma replicate_numeral: "replicate (numeral k) x = x # replicate (pred_numeral k) x"
  by (simp add: numeral_eq_Suc)

lemma foldl_min_all_PosInf: "\<forall>x \<in> set xs. x = PosInf \<Longrightarrow> foldl Math_min PosInf xs = PosInf"
  by (induction xs) (auto simp: Math_min_def)

lemma min_x_not_PosInf:
  "fst (bmin (foldl fold_vertex empty_box vs)) \<noteq> PosInf \<longleftrightarrow> (\<exists>p \<in> set vs. fst p \<noteq> PosInf)"
proof -
  have "foldl Math_min PosInf (xs_of vs) \<noteq> PosInf \<longleftrightarrow> (\<exists>x \<in> set (xs_of vs). x \<noteq> PosInf)"
    using foldl_min_all_PosInf [of "xs_of vs"] min_x_PosInf [of "xs_of vs"] by blast
  then show ?thesis
    by (simp add: foldl_fold_vertex_min empty_box_def xs_of_def)
qed

lemma parse_binary:
  assumes "84 \<le> length buf" "0 < le32 buf 80" "84 + le32 buf 80 * 50 \<le> length buf"
  shows "parseStlBoundingBox buf =
     (let b = foldl fold_vertex empty_box (mesh_vertices buf (le32 buf 80))
      in if fst (bmin b) \<noteq> PosInf then Inr b else ascii_fallback buf b)"
  using assms
  by (simp add: parseStlBoundingBox_def readUInt32LE_def triangle_loop_mesh Let_def)

text \<open>The one error of the parser is that of a buffer too long to be a string, thrown when
  the parser comes to read the buffer as text; a buffer within the limit always has a box.\<close>

lemma ascii_fallback_cases:
  "ascii_fallback buf b = Inl StringTooLong \<or> (\<exists>b'. ascii_fallback buf b = Inr b')"
  by (simp add: ascii_fallback_def toString_utf8_def)

lemma parseStlBoundingBox_cases:
  "parseStlBoundingBox buf = Inl StringTooLong \<or> (\<exists>b. parseStlBoundingBox buf = Inr b)"
proof (cases "84 \<le> length buf \<and> 0 < le32 buf 80 \<and> 84 + le32 buf 80 * 50 \<le> length buf")
  case True
  then show ?thesis
    using parse_binary [of buf]
      ascii_fallback_cases [of buf "foldl fold_vertex empty_box (mesh_vertices buf (le32 buf 80))"]
    by (auto simp: Let_def)
next
  case False
  then show ?thesis
    using ascii_fallback_cases [of buf empty_box]
    by (auto simp: parseStlBoundingBox_def readUInt32LE_def Let_def)
qed

lemma parseStlBoundingBox_no_Error: "parseStlBoundingBox buf \<noteq> Inl (Error m)"
  using parseStlBoundingBox_cases [of buf] by auto

lemma ascii_fallback_within:
  "length buf \<le> MAX_STRING_LENGTH \<Longrightarrow>
   ascii_fallback buf b =
     Inr (foldl fold_vertex b (map text_vertex (vertex_matches (utf8_run utf8_idle (map unat buf)))))"
  by (simp add: ascii_fallback_def toString_utf8_def)

lemma parseStlBoundingBox_within:
  assumes "length buf \<le> MAX_STRING_LENGTH"
  shows "\<exists>b. parseStlBoundingBox buf = Inr b"
proof (cases "84 \<le> length buf \<and> 0 < le32 buf 80 \<and> 84 + le32 buf 80 * 50 \<le> length buf")
  case True
  then show ?thesis
    using parse_binary [of buf] by (simp add: Let_def ascii_fallback_within [OF assms])
next
  case False
  then show ?thesis
    by (auto simp: parseStlBoundingBox_def readUInt32LE_def Let_def ascii_fallback_within [OF assms])
qed

text \<open>A buffer of zero bytes that is too long to be a string: the count it declares is 0,
  the parser reads it as text and throws.\<close>

lemma zero_buffer_too_long:
  assumes "MAX_STRING_LENGTH < n"
  shows "parseStlBoundingBox (replicate n 0) = Inl StringTooLong"
proof -
  from assms have n: "84 \<le> n" "80 < n" "81 < n" "82 < n" "83 < n"
    by (simp_all add: MAX_STRING_LENGTH_def)
  then have "le32 (replicate n 0) 80 = 0"
    by (simp add: le32_def)
  with assms n(1) show ?thesis
    by (simp add: parseStlBoundingBox_def readUInt32LE_def ascii_fallback_def toString_utf8_def)
qed

lemma inf_mesh_bytes:
  "inf_mesh =
   [0, 0, 0, 0, 0, 0, 0, 0, 0, 0, 0, 0, 0, 0, 0, 0, 0, 0, 0, 0, 0, 0, 0, 0,
    0, 0, 0, 0, 0, 0, 0, 0, 0, 0, 0, 0, 0, 0, 0, 0, 0, 0, 0, 0, 0, 0, 0, 0,
    0, 0, 0, 0, 0, 0, 0, 0, 0, 0, 0, 0, 0, 0, 0, 0, 0, 0, 0, 0, 0, 0, 0, 0,
    0, 0, 0, 0, 0, 0, 0, 0, 1, 0, 0, 0, 118, 101, 114, 116, 101, 120, 32,
    49, 32, 50, 32, 51, 0, 0, 128, 127, 0, 0, 0, 0, 0, 0, 0, 0, 0, 0, 128,
    127, 0, 0, 0, 0, 0, 0, 0, 0, 0, 0, 128, 127, 0, 0, 0, 0, 0, 0, 0, 0, 0, 0]"
  by (simp add: inf_mesh_def replicate_numeral)

lemma inf_mesh_length: "length inf_mesh = 134"
  by (simp add: inf_mesh_bytes)

lemma inf_mesh_count: "le32 inf_mesh 80 = 1"
  by (simp add: inf_mesh_bytes le32_def)

lemma inf_mesh_vertices:
  "mesh_vertices inf_mesh (Suc 0) = [(PosInf, Fin 0, Fin 0), (PosInf, Fin 0, Fin 0), (PosInf, Fin 0, Fin 0)]"
  by (simp add: mesh_vertices_def upt_rec vertex_at_def inf_mesh_bytes le32_def f32_value_def)

lemma inf_mesh_text:
  "vertex_matches (utf8_run utf8_idle (map unat inf_mesh)) = [([49], [50], [51])]"
  by (simp add: inf_mesh_bytes utf8_step_def utf8_lead_def utf8_idle_def
        match_vertex_def units_def spaces1_def token_def is_space_def is_tok_def is_digit_def)

lemma bitlen_0: "bitlen 0 = 0"
  by (subst bitlen.simps) simp

lemma bitlen_1: "bitlen (Suc 0) = Suc 0"
  by (subst bitlen.simps) (simp add: bitlen_0)

lemma bitlen_2: "bitlen 2 = 2"
  by (subst bitlen.simps) (simp add: bitlen_1)

lemma bitlen_3: "bitlen 3 = 2"
  by (subst bitlen.simps) (simp add: bitlen_1)

lemma round_half_even_int: "round_half_even (of_int n) = n"
  unfolding round_half_even_def Let_def by simp

lemma round_half_even_numeral: "round_half_even (numeral k) = numeral k"
  using round_half_even_int [of "numeral k"] by simp

lemma to_double_small: "to_double 1 = Fin 1" "to_double 2 = Fin 2" "to_double 3 = Fin 3"
  by (simp_all add: to_double_def Let_def bitlen_1 bitlen_2 bitlen_3 pow2_def
        round_half_even_numeral)

lemma parseFloat_digit:
  "parseFloat [49] = Fin 1" "parseFloat [50] = Fin 2" "parseFloat [51] = Fin 3"
  by (simp_all add: parseFloat_def Let_def is_space_def units_def parse_unsigned_def is_digit_def
        decimal_value_def digits_value_def pow10_def to_double_small)

lemma inf_mesh_scan:
  "triangle_loop inf_mesh (Suc 0) 0 empty_box =
     Inr \<lparr>bmin = (PosInf, Fin 0, Fin 0), bmax = (PosInf, Fin 0, Fin 0)\<rparr>"
  by (simp add: triangle_loop_mesh inf_mesh_length inf_mesh_vertices fold_vertex_def empty_box_def
        Math_min_def Math_max_def)

lemma inf_mesh_fallback:
  "ascii_fallback inf_mesh \<lparr>bmin = (PosInf, Fin 0, Fin 0), bmax = (PosInf, Fin 0, Fin 0)\<rparr> =
     Inr \<lparr>bmin = (Fin 1, Fin 0, Fin 0), bmax = (PosInf, Fin 2, Fin 3)\<rparr>"
  by (simp add: ascii_fallback_within inf_mesh_length MAX_STRING_LENGTH_def inf_mesh_text
        text_vertex_def parseFloat_digit fold_vertex_def Math_min_def Math_max_def)

lemma inf_mesh_parse:
  "parseStlBoundingBox inf_mesh =
     Inr \<lparr>bmin = (Fin 1, Fin 0, Fin 0), bmax = (PosInf, Fin 2, Fin 3)\<rparr>"
proof -
  have "parseStlBoundingBox inf_mesh =
      (let b = foldl fold_vertex empty_box (mesh_vertices inf_mesh (le32 inf_mesh 80))
       in if fst (bmin b) \<noteq> PosInf then Inr b else ascii_fallback inf_mesh b)"
    by (rule parse_binary) (simp_all add: inf_mesh_length inf_mesh_count)
  moreover have "foldl fold_vertex empty_box (mesh_vertices inf_mesh (Suc 0)) =
      \<lparr>bmin = (PosInf, Fin 0, Fin 0), bmax = (PosInf, Fin 0, Fin 0)\<rparr>"
    by (simp add: inf_mesh_vertices fold_vertex_def empty_box_def Math_min_def Math_max_def)
  ultimately show ?thesis
    by (simp add: inf_mesh_count inf_mesh_fallback)
qed

lemma tri_mesh_bytes:
  "tri_mesh =
   [0, 0, 0, 0, 0, 0, 0, 0, 0, 0, 0, 0, 0, 0, 0, 0, 0, 0, 0, 0, 0, 0, 0, 0,
    0, 0, 0, 0, 0, 0, 0, 0, 0, 0, 0, 0, 0, 0, 0, 0, 0, 0, 0, 0, 0, 0, 0, 0,
    0, 0, 0, 0, 0, 0, 0, 0, 0, 0, 0, 0, 0, 0, 0, 0, 0, 0, 0, 0, 0, 0, 0, 0,
    0, 0, 0, 0, 0, 0, 0, 0, 1, 0, 0, 0, 0, 0, 0, 0, 0, 0, 0, 0, 0, 0, 128,
    63, 0, 0, 128, 191, 0, 0, 0, 192, 0, 0, 64, 192, 0, 0, 128, 64, 0, 0,
    160, 64, 0, 0, 192, 64, 0, 0, 224, 64, 0, 0, 0, 65, 0, 0, 16, 65, 0, 0]"
  by (simp add: tri_mesh_def replicate_numeral)

lemma tri_mesh_length: "length tri_mesh = 134"
  by (simp add: tri_mesh_bytes)

lemma tri_mesh_count: "le32 tri_mesh 80 = 1"
  by (simp add: tri_mesh_bytes le32_def)

lemma tri_mesh_vertices:
  "mesh_vertices tri_mesh (Suc 0) =
     [(Fin (- 1), Fin (- 2), Fin (- 3)), (Fin 4, Fin 5, Fin 6), (Fin 7, Fin 8, Fin 9)]"
  by (simp add: mesh_vertices_def upt_rec vertex_at_def tri_mesh_bytes le32_def f32_value_def)

subsection \<open>The bounding box of a binary mesh\<close>

text \<open>
  What the binary scan leaves is the bounding box of the mesh: on each axis the least and the
  greatest of the float32 coordinates stored in the records (NaN twice on an axis that holds a
  NaN coordinate, as \<open>Math.min\<close> and \<open>Math.max\<close> give it). The parser returns that box
  whenever some vertex has an x coordinate other than +Infinity; the mesh of the repository's
  test is an example.
\<close>

lemma binary_scan_bounds:
  assumes "well_formed_A buf n"
  shows "\<exists>b. triangle_loop buf n 0 empty_box = Inr b
    \<and> axis_bounds (fst (bmin b)) (fst (bmax b)) (xs_of (mesh_vertices buf n))
    \<and> axis_bounds (fst (snd (bmin b))) (fst (snd (bmax b))) (ys_of (mesh_vertices buf n))
    \<and> axis_bounds (snd (snd (bmin b))) (snd (snd (bmax b))) (zs_of (mesh_vertices buf n))"
proof -
  let ?vs = "mesh_vertices buf n"
  from assms have g: "84 + n * 50 \<le> length buf" and n: "1 \<le> n"
    by (auto simp: well_formed_A_def mult.commute)
  have "xs_of ?vs \<noteq> []" "ys_of ?vs \<noteq> []" "zs_of ?vs \<noteq> []"
    using mesh_vertices_nonempty [OF n, of buf] by (simp_all add: xs_of_def ys_of_def zs_of_def)
  then show ?thesis
    by (simp add: triangle_loop_mesh [OF g] foldl_fold_vertex_min foldl_fold_vertex_max
          empty_box_def axis_bounds_fold)
qed

lemma binary_scan_returned:
  assumes "well_formed_A buf n"
    and "\<exists>p \<in> set (mesh_vertices buf n). fst p \<noteq> PosInf"
  shows "parseStlBoundingBox buf = triangle_loop buf n 0 empty_box"
proof -
  from assms(1) have g: "84 \<le> length buf" "0 < le32 buf 80" "84 + le32 buf 80 * 50 \<le> length buf"
    and n: "le32 buf 80 = n"
    by (auto simp: well_formed_A_def mult.commute)
  from g(3) n have "84 + n * 50 \<le> length buf"
    by simp
  with assms(2) show ?thesis
    using parse_binary [OF g] min_x_not_PosInf [of "mesh_vertices buf n"]
    by (simp add: n Let_def triangle_loop_mesh)
qed

lemma tri_mesh_parse:
  "parseStlBoundingBox tri_mesh =
     Inr \<lparr>bmin = (Fin (- 1), Fin (- 2), Fin (- 3)), bmax = (Fin 7, Fin 8, Fin 9)\<rparr>"
proof -
  have w: "well_formed_A tri_mesh (Suc 0)"
    by (simp add: well_formed_A_def tri_mesh_length tri_mesh_count)
  have x: "\<exists>p \<in> set (mesh_vertices tri_mesh (Suc 0)). fst p \<noteq> PosInf"
    by (simp add: tri_mesh_vertices)
  from binary_scan_returned [OF w x] show ?thesis
    by (simp add: triangle_loop_mesh tri_mesh_length tri_mesh_vertices fold_vertex_def
          empty_box_def Math_min_def Math_max_def)
qed

text \<open>
  C2. The code departs from the claim on \<open>inf_mesh\<close>, a well-formed binary mesh of one
  triangle. Its nine coordinates are +Infinity three times on the x axis and 0 six times on
  the other two, so the bounding box is +Infinity to +Infinity on x and 0 to 0 on y and z.
  The parser returns the minimum 1 on x and the maxima 2 and 3 on y and z: the guard of the
  early return, \<open>min[0] !== Infinity\<close>, takes the minimum +Infinity for the sign that no
  vertex was read, and the text scan folds the numbers of the bytes \<open>vertex 1 2 3\<close> of the
  normal into the bounds.
\<close>

theorem binary_bounds_lost_at_infinity:
  "well_formed_A inf_mesh 1
   \<and> mesh_vertices inf_mesh 1 =
       [(PosInf, Fin 0, Fin 0), (PosInf, Fin 0, Fin 0), (PosInf, Fin 0, Fin 0)]
   \<and> parseStlBoundingBox inf_mesh =
       Inr \<lparr>bmin = (Fin 1, Fin 0, Fin 0), bmax = (PosInf, Fin 2, Fin 3)\<rparr>"
  using inf_mesh_vertices
  by (simp add: well_formed_A_def inf_mesh_length inf_mesh_count inf_mesh_parse)

subsection \<open>When the binary scan is the answer\<close>

text \<open>
  C3. The code departs from the claim on the same buffer, by the same guard. The binary scan
  runs on \<open>inf_mesh\<close> (84 bytes at least, the count 1, room for one record) and visits
  three vertices; the parser does not return the result of that scan: it goes on to the text
  scan, which starts from the bounds the binary scan left, and returns what the text scan
  made of them.
\<close>

theorem binary_scan_not_returned:
  "84 \<le> length inf_mesh \<and> 0 < le32 inf_mesh 80 \<and> 84 + le32 inf_mesh 80 * 50 \<le> length inf_mesh
   \<and> triangle_loop inf_mesh (le32 inf_mesh 80) 0 empty_box =
       Inr \<lparr>bmin = (PosInf, Fin 0, Fin 0), bmax = (PosInf, Fin 0, Fin 0)\<rparr>
   \<and> parseStlBoundingBox inf_mesh =
       ascii_fallback inf_mesh \<lparr>bmin = (PosInf, Fin 0, Fin 0), bmax = (PosInf, Fin 0, Fin 0)\<rparr>
   \<and> parseStlBoundingBox inf_mesh =
       Inr \<lparr>bmin = (Fin 1, Fin 0, Fin 0), bmax = (PosInf, Fin 2, Fin 3)\<rparr>
   \<and> parseStlBoundingBox inf_mesh \<noteq> triangle_loop inf_mesh (le32 inf_mesh 80) 0 empty_box"
  by (simp add: inf_mesh_length inf_mesh_count inf_mesh_scan inf_mesh_parse inf_mesh_fallback)

section \<open>Properties of Open and of the resynchronisation\<close>

subsection \<open>path.join of a directory and a plain file name\<close>

lemma foldr_split_nonempty: "foldr split_step a (x # r) \<noteq> []"
  by (induction a) (auto simp: split_step_def split: list.splits)

lemma split_step_append: "acc \<noteq> [] \<Longrightarrow> split_step c (acc @ r) = split_step c acc @ r"
  by (cases acc) (simp_all add: split_step_def)

lemma foldr_split_append: "foldr split_step a (x # r) = foldr split_step a [x] @ r"
  by (induction a) (simp_all add: split_step_append foldr_split_nonempty)

lemma segments_plain: "CHR ''/'' \<notin> set n \<Longrightarrow> segments n = [n]"
  unfolding segments_def by (induction n) (auto simp: split_step_def)

lemma segments_join:
  assumes "CHR ''/'' \<notin> set n"
  shows "segments (a @ CHR ''/'' # n) = segments a @ [n]"
proof -
  have "segments (a @ CHR ''/'' # n) = foldr split_step a (split_step CHR ''/'' (segments n))"
    by (simp add: segments_def)
  also have "\<dots> = foldr split_step a ([] # [n])"
    using assms by (simp add: segments_plain split_step_def)
  also have "\<dots> = foldr split_step a [[]] @ [n]"
    by (rule foldr_split_append)
  finally show ?thesis
    by (simp add: segments_def)
qed

lemma join_segments_snoc:
  "join_segments (st @ [n]) = (if st = [] then n else join_segments st @ ''/'' @ n)"
  by (induction st rule: join_segments.induct) simp_all

text \<open>A plain file name (not empty, without separator, neither \<open>.\<close> nor \<open>..\<close>) is the
  last segment of the joined path, after a prefix that depends on the directory alone.\<close>

lemma path_join_name:
  assumes "n \<noteq> []" "CHR ''/'' \<notin> set n" "n \<noteq> ''.''" "n \<noteq> ''..''"
  shows "path_join a n = join_prefix a @ n"
proof -
  from assms(1,2) have h: "hd n \<noteq> CHR ''/''" "last n \<noteq> CHR ''/''"
    by (metis hd_in_set, metis last_in_set)
  show ?thesis
  proof (cases "a = []")
    case True
    with assms h show ?thesis
      by (simp add: path_join_def path_normalize_def join_prefix_def normalizeString_def
            segments_plain norm_step_def Let_def)
  next
    case False
    let ?st = "normalizeString a (hd a \<noteq> CHR ''/'')"
    have st: "normalizeString (a @ ''/'' @ n) (hd a \<noteq> CHR ''/'') = ?st @ [n]"
      using assms by (simp add: normalizeString_def segments_join norm_step_def)
    have ne: "join_segments (?st @ [n]) \<noteq> []"
      using assms(1) by (simp add: join_segments_snoc)
    have "path_join a n = path_normalize (a @ ''/'' @ n)"
      using False assms(1) by (simp add: path_join_def)
    also have "\<dots> = (if hd a = CHR ''/'' then ''/'' else []) @ join_segments (?st @ [n])"
      using False assms(1) h(2) st ne by (simp add: path_normalize_def Let_def)
    also have "\<dots> = join_prefix a @ n"
      using False by (simp add: join_prefix_def join_segments_snoc)
    finally show ?thesis .
  qed
qed

lemma digits_value: "foldl (\<lambda>a d. 10 * a + d) 0 (digits n) = n"
proof (induction n rule: digits.induct)
  case (1 n)
  show ?case
  proof (cases "n < 10")
    case True
    then show ?thesis by (subst digits.simps) simp
  next
    case False
    with "1.IH" show ?thesis by (subst digits.simps) simp
  qed
qed

lemma digits_lt: "d \<in> set (digits n) \<Longrightarrow> d < 10"
proof (induction n rule: digits.induct)
  case (1 n)
  show ?case
  proof (cases "n < 10")
    case True
    with "1.prems" show ?thesis by (subst (asm) digits.simps) simp
  next
    case False
    with "1.prems" "1.IH" show ?thesis by (subst (asm) digits.simps) auto
  qed
qed



lemma show_nat_no_separator: "CHR ''/'' \<notin> set (show_nat n)"
proof
  assume "CHR ''/'' \<in> set (show_nat n)"
  then obtain d where d: "d \<in> set (digits n)" "char_of (48 + d) = CHR ''/''"
    by (auto simp: show_nat_def)
  from d(2) have "of_char (char_of (48 + d) :: char) = (47 :: nat)"
    by simp
  with digits_lt [OF d(1)] show False
    by simp
qed

text \<open>The output path is the normalised temporary directory, a separator, and the name made
  of the reading of the clock.\<close>

lemma tmpStl_name:
  "tmpStl w = join_prefix (tmpdir w) @ ''openscad-viewer-'' @ show_nat (clock w) @ ''.stl''"
  unfolding tmpStl_def
  by (rule path_join_name) (simp_all add: show_nat_no_separator)


subsection \<open>Facts about the example world\<close>

lemma demo_ext:
  "demo_extname ''/m/a.scad'' = ''.scad''" "demo_extname ''/m/bad.scad'' = ''.scad''"
  "demo_extname ''/m/c.scad'' = ''.scad''"
  "demo_extname ''/m/b.stl'' = ''.stl''" "demo_extname ''/m/d.stl'' = ''.stl''"
  "demo_extname ''/m/x.obj'' = ''.obj''" "demo_extname ''/m/none.stl'' = ''.stl''"
  by (simp_all add: demo_extname_def)


lemma digits_demo: "digits 1700000000000 = [1, 7, 0, 0, 0, 0, 0, 0, 0, 0, 0, 0, 0]"
  by (simp add: digits.simps)


lemma demo_join_prefix: "join_prefix ''/tmp'' = ''/tmp/''" "join_prefix ''/tmp//y'' = ''/tmp/y/''"
  by (simp_all add: join_prefix_def normalizeString_def segments_def split_step_def norm_step_def)


text \<open>A temporary directory that is not a normalised path is normalised by \<open>path.join\<close>.\<close>

lemma tmpStl_normalised:
  "tmpStl (demo_world\<lparr>tmpdir := ''/tmp//y''\<rparr>) = ''/tmp/y/openscad-viewer-1700000000000.stl''"
  by (simp add: tmpStl_name demo_world_def demo_join_prefix show_nat_def digits_demo char_of_eq_iff)


lemma demo_deps_a: "parseScadDependencies demo_world ''/m/a.scad'' = [''/m/l.scad'']"
  by (simp add: parseScadDependencies_def demo_world_def readFile_def kIoMaxLength_def
        toString_utf8_def MAX_STRING_LENGTH_def utf8_step_def utf8_lead_def utf8_idle_def
        match_dep_def units_def is_space_def existsSync_def char_of_eq_iff)



subsection \<open>The answer of Open\<close>

lemma openFile_loaded_outcome:
  assumes "files w absPath = Some n"
  shows "fst (openFile_loaded w absPath r s) = mesh_outcome absPath (size_of w absPath) r"
  using assms
  by (cases n)
     (auto simp: openFile_loaded_def mesh_outcome_def Let_def statSize_def size_of_def
           split: sum.splits)

text \<open>
  C4, as the code has it. Open answers as \<open>open_outcome\<close> says: the four failures of the
  claim with exactly their messages, checked in the order not-found, unsupported-type,
  tool-unavailable, compilation-failed; in every other case Open succeeds provided the mesh
  can be read and parsed. It fails with the error of \<open>readFile\<close> when the mesh cannot be
  read, and with the error of \<open>toString\<close> when the parser reads the mesh as text and the
  mesh is too long to be a string.
\<close>

theorem openFile_outcome: "fst (openFile w filePath s) = open_outcome w filePath"
proof -
  let ?p = "path_resolve w filePath"
  let ?ext = "toLowerCase w (extname w ?p)"
  consider (missing) "\<not> existsSync w ?p"
    | (unsupported) "existsSync w ?p" "?ext \<noteq> ''.scad''" "?ext \<noteq> ''.stl''"
    | (scad) "existsSync w ?p" "?ext = ''.scad''"
    | (stl) "existsSync w ?p" "?ext = ''.stl''"
    by blast
  then show ?thesis
  proof cases
    case missing
    then show ?thesis by (simp add: openFile_def openFile_begin_def open_outcome_def Let_def)
  next
    case unsupported
    then show ?thesis by (simp add: openFile_def openFile_begin_def open_outcome_def Let_def)
  next
    case scad
    from scad(1) obtain n where n: "files w ?p = Some n"
      by (auto simp: existsSync_def)
    show ?thesis
    proof (cases "openscad w (tmpStl w) ?p (files w)")
      case (Exit0 b)
      have "files (w\<lparr>files := (files w)(tmpStl w \<mapsto> File b)\<rparr>) ?p \<noteq> None"
        using n by simp
      then obtain n' where "files (w\<lparr>files := (files w)(tmpStl w \<mapsto> File b)\<rparr>) ?p = Some n'"
        by blast
      from openFile_loaded_outcome [OF this] scad Exit0 show ?thesis
        by (simp add: openFile_def openFile_begin_def open_outcome_def Let_def checkOpenSCAD_def
              compileScad_def compile_finish_def openFile_compiled_def split_beta)
    next
      case (ExecFailed se m)
      with scad show ?thesis
        by (simp add: openFile_def openFile_begin_def open_outcome_def Let_def checkOpenSCAD_def
              compileScad_def compile_finish_def openFile_compiled_def readFile_def
              openFile_loaded_def split_beta)
    qed
  next
    case stl
    from stl(1) obtain n where n: "files w ?p = Some n"
      by (auto simp: existsSync_def)
    from openFile_loaded_outcome [OF n] stl show ?thesis
      by (simp add: openFile_def openFile_begin_def open_outcome_def Let_def split_beta)
  qed
qed

text \<open>
  C4 as stated fails: \<open>/m/d.stl\<close> exists and has a supported extension, so none of the
  four conditions holds, and Open fails all the same, because the path is a directory and
  cannot be read.
\<close>

theorem openFile_outcome_counterexample:
  "existsSync demo_world (path_resolve demo_world ''/m/d.stl'')
   \<and> toLowerCase demo_world (extname demo_world (path_resolve demo_world ''/m/d.stl'')) = ''.stl''
   \<and> fst (openFile demo_world ''/m/d.stl'' init_state) = Inl (FsError ''EISDIR'')"
  by (simp add: openFile_def openFile_begin_def Let_def demo_world_def existsSync_def demo_ext
        readFile_def openFile_loaded_def)

text \<open>
  The other failure that is none of the four: a mesh file of zero bytes that can be read and
  is too long to be a string. The count it declares is 0, the parser reads it as text, and
  Open fails after it has replaced the mesh path, the mesh and the current file.
\<close>

lemma openFile_text_too_long:
  assumes "files w (path_resolve w g) = Some (File (replicate n 0))"
    and "toLowerCase w (extname w (path_resolve w g)) = ''.stl''"
    and "MAX_STRING_LENGTH < n" and "n \<le> kIoMaxLength"
  shows "openFile w g s =
    (Inl StringTooLong, w,
     s\<lparr>currentStlPath := Some (path_resolve w g), currentStlBuffer := Some (replicate n 0),
       currentFile := Some (path_resolve w g)\<rparr>)"
  using assms
  by (simp add: openFile_def openFile_begin_def Let_def existsSync_def readFile_def
        openFile_loaded_def zero_buffer_too_long)

subsection \<open>A failed recompilation\<close>



subsection \<open>The failures of Open\<close>

lemma readFile_no_Error: "readFile w po \<noteq> Inl (Error m)"
  by (auto simp: readFile_def split: option.splits fsnode.splits)

lemma openFile_loaded_no_Error:
  "fst (openFile_loaded w' p (readFile w' po) s') \<noteq> Inl (Error m)"
proof (cases "readFile w' po")
  case (Inl e)
  with readFile_no_Error [of w' po m] show ?thesis
    by (simp add: openFile_loaded_def)
next
  case (Inr buf)
  with parseStlBoundingBox_no_Error [of buf m] show ?thesis
    by (auto simp: openFile_loaded_def Let_def statSize_def split: sum.splits option.splits
          fsnode.splits)
qed

lemma openFile_compile_failed:
  assumes "existsSync w (path_resolve w filePath)"
    and "toLowerCase w (extname w (path_resolve w filePath)) = ''.scad''"
    and "openscad_present w"
    and "openscad w (tmpStl w) (path_resolve w filePath) (files w) = ExecFailed se e"
    and "se \<noteq> [] \<or> e \<noteq> []"
  shows "openFile w filePath s =
     (Inl (Error (''OpenSCAD compilation failed:'' @ [CHR 0x0A] @ (if se \<noteq> [] then se else e))), w, s)"
  using assms
  by (simp add: openFile_def openFile_begin_def Let_def checkOpenSCAD_def compileScad_def
        compile_finish_def openFile_compiled_def)

lemma openFile_compile_silent:
  assumes "existsSync w (path_resolve w filePath)"
    and "toLowerCase w (extname w (path_resolve w filePath)) = ''.scad''"
    and "openscad_present w"
    and "openscad w (tmpStl w) (path_resolve w filePath) (files w) = ExecFailed [] []"
  shows "fst (openFile w filePath s) \<noteq> Inl (Error m)"
  using assms
  by (simp add: openFile_def openFile_begin_def Let_def checkOpenSCAD_def compileScad_def
        compile_finish_def openFile_compiled_def split_beta openFile_loaded_no_Error)

lemma openFile_compiled_ok:
  assumes "existsSync w (path_resolve w filePath)"
    and "toLowerCase w (extname w (path_resolve w filePath)) = ''.scad''"
    and "openscad_present w"
    and "openscad w (tmpStl w) (path_resolve w filePath) (files w) = Exit0 b"
  shows "fst (openFile w filePath s) \<noteq> Inl (Error m)"
  using assms
  by (simp add: openFile_def openFile_begin_def Let_def checkOpenSCAD_def compileScad_def
        compile_finish_def openFile_compiled_def split_beta openFile_loaded_no_Error)

lemma openFile_stl_no_Error:
  assumes "existsSync w (path_resolve w filePath)"
    and "toLowerCase w (extname w (path_resolve w filePath)) = ''.stl''"
  shows "fst (openFile w filePath s) \<noteq> Inl (Error m)"
  using assms
  by (simp add: openFile_def openFile_begin_def Let_def split_beta openFile_loaded_no_Error)

text \<open>
  C10. When Open fails with one of its own errors, which are the four of the claim, the whole
  state is what it was before the call (the model, the watcher, the messages sent) and so are
  the files.
\<close>

theorem openFile_failure_atomic:
  assumes "fst (openFile w filePath s) = Inl (Error m)"
  shows "snd (openFile w filePath s) = (w, s)
    \<and> (m = ''File not found: '' @ path_resolve w filePath
       \<or> m = ''Unsupported file type: '' @ toLowerCase w (extname w (path_resolve w filePath))
               @ ''. Only .scad and .stl are supported.''
       \<or> m = ''OpenSCAD is not installed or not found on $PATH''
       \<or> (\<exists>d. m = ''OpenSCAD compilation failed:'' @ [CHR 0x0A] @ d))"
proof -
  let ?p = "path_resolve w filePath"
  let ?ext = "toLowerCase w (extname w ?p)"
  consider (missing) "\<not> existsSync w ?p"
    | (unsupported) "existsSync w ?p" "?ext \<noteq> ''.scad''" "?ext \<noteq> ''.stl''"
    | (no_tool) "existsSync w ?p" "?ext = ''.scad''" "\<not> openscad_present w"
    | (scad) "existsSync w ?p" "?ext = ''.scad''" "openscad_present w"
    | (stl) "existsSync w ?p" "?ext = ''.stl''"
    by blast
  then show ?thesis
  proof cases
    case missing
    with assms show ?thesis
      by (simp add: openFile_def openFile_begin_def Let_def)
  next
    case unsupported
    with assms show ?thesis
      by (simp add: openFile_def openFile_begin_def Let_def)
  next
    case no_tool
    with assms show ?thesis
      by (simp add: openFile_def openFile_begin_def Let_def checkOpenSCAD_def)
  next
    case scad
    show ?thesis
    proof (cases "openscad w (tmpStl w) ?p (files w)")
      case (Exit0 b)
      from openFile_compiled_ok [OF scad Exit0] assms show ?thesis
        by blast
    next
      case (ExecFailed se e)
      show ?thesis
      proof (cases "se \<noteq> [] \<or> e \<noteq> []")
        case True
        from openFile_compile_failed [OF scad ExecFailed True, of s] assms
        have "snd (openFile w filePath s) = (w, s)"
          and "m = ''OpenSCAD compilation failed:'' @ [CHR 0x0A] @ (if se \<noteq> [] then se else e)"
          by simp_all
        then show ?thesis by blast
      next
        case False
        with ExecFailed have "openscad w (tmpStl w) ?p (files w) = ExecFailed [] []"
          by simp
        from openFile_compile_silent [OF scad this] assms show ?thesis
          by blast
      qed
    qed
  next
    case stl
    from openFile_stl_no_Error [OF stl] assms show ?thesis
      by blast
  qed
qed

theorem openFile_failure_atomic_witness:
  "fst (openFile demo_world ''/m/none.stl'' demo_loaded) = Inl (Error ''File not found: /m/none.stl'')
   \<and> snd (openFile demo_world ''/m/none.stl'' demo_loaded) = (demo_world, demo_loaded)
   \<and> fst (openFile demo_world ''/m/x.obj'' demo_loaded) =
       Inl (Error ''Unsupported file type: .obj. Only .scad and .stl are supported.'')
   \<and> snd (openFile demo_world ''/m/x.obj'' demo_loaded) = (demo_world, demo_loaded)
   \<and> fst (openFile (demo_world\<lparr>openscad_present := False\<rparr>) ''/m/a.scad'' demo_loaded) =
       Inl (Error ''OpenSCAD is not installed or not found on $PATH'')
   \<and> snd (openFile (demo_world\<lparr>openscad_present := False\<rparr>) ''/m/a.scad'' demo_loaded) =
       (demo_world\<lparr>openscad_present := False\<rparr>, demo_loaded)
   \<and> fst (openFile demo_world ''/m/bad.scad'' demo_loaded) =
       Inl (Error (''OpenSCAD compilation failed:'' @ [CHR 0x0A] @ ''ERROR: Parser error in line 1''))
   \<and> snd (openFile demo_world ''/m/bad.scad'' demo_loaded) = (demo_world, demo_loaded)"
proof -
  have a: "fst (openFile demo_world ''/m/none.stl'' demo_loaded) =
      Inl (Error ''File not found: /m/none.stl'')"
    by (simp add: openFile_def openFile_begin_def Let_def demo_world_def existsSync_def)
  have b: "fst (openFile demo_world ''/m/x.obj'' demo_loaded) =
      Inl (Error ''Unsupported file type: .obj. Only .scad and .stl are supported.'')"
    by (simp add: openFile_def openFile_begin_def Let_def demo_world_def existsSync_def demo_ext)
  have c: "fst (openFile (demo_world\<lparr>openscad_present := False\<rparr>) ''/m/a.scad'' demo_loaded) =
      Inl (Error ''OpenSCAD is not installed or not found on $PATH'')"
    by (simp add: openFile_def openFile_begin_def Let_def demo_world_def existsSync_def demo_ext
          checkOpenSCAD_def)
  have d: "fst (openFile demo_world ''/m/bad.scad'' demo_loaded) =
      Inl (Error (''OpenSCAD compilation failed:'' @ [CHR 0x0A] @ ''ERROR: Parser error in line 1''))"
    by (simp add: openFile_def openFile_begin_def Let_def demo_world_def existsSync_def demo_ext
          checkOpenSCAD_def compileScad_def compile_finish_def demo_openscad_def
          openFile_compiled_def)
  from a b c d openFile_failure_atomic [OF a] openFile_failure_atomic [OF b]
    openFile_failure_atomic [OF c] openFile_failure_atomic [OF d]
  show ?thesis by simp
qed

subsection \<open>The output path of the compiler\<close>





subsection \<open>Open overtaken by a resynchronisation\<close>













section \<open>Properties of the peer channel and of the debounce timer\<close>

subsection \<open>Open and the handler of a change leave the channel alone\<close>

lemma chan_inv_cong: "chan_of s' = chan_of s \<Longrightarrow> chan_inv s' = chan_inv s"
  by (simp add: chan_of_def chan_inv_def inv_handles_def inv_table_def inv_timers_def
        inv_promises_def inv_debounce_def)

lemma chan_of_broadcast [simp]: "chan_of (broadcast m s) = chan_of s"
  by (simp add: chan_of_def broadcast_def)

lemma chan_of_setupWatcher [simp]: "chan_of (setupWatcher w p s) = chan_of s"
  by (simp add: chan_of_def setupWatcher_def)

lemma chan_of_hfc_loaded [simp]: "chan_of (snd (hfc_loaded r s)) = chan_of s"
  by (auto simp: hfc_loaded_def chan_of_def broadcast_def split: sum.splits)

lemma chan_of_hfc_compiled [simp]: "chan_of (snd (hfc_compiled w r s)) = chan_of s"
  by (auto simp: hfc_compiled_def chan_of_def broadcast_def setupWatcher_def Let_def
           split: option.splits)

lemma snd_snd_case [simp]: "snd (snd (case p of (x, s2) \<Rightarrow> (x, w0, s2))) = snd p"
  by (simp add: split_beta)

lemma chan_of_handleFileChange [simp]: "chan_of (snd (snd (handleFileChange w s))) = chan_of s"
proof -
  show ?thesis
  proof (cases "currentFile s")
    case None
    then show ?thesis by (simp add: handleFileChange_def)
  next
    case (Some f)
    show ?thesis
    proof (cases "toLowerCase w (extname w f) = ''.scad''")
      case False
      with Some show ?thesis by (simp add: handleFileChange_def)
    next
      case True
      obtain result w' where c: "compileScad w f = (result, w')"
        by (cases "compileScad w f") auto
      obtain x s1 where h: "hfc_compiled w' result s = (x, s1)"
        by (cases "hfc_compiled w' result s") auto
      with chan_of_hfc_compiled [of w' result s] have s1: "chan_of s1 = chan_of s"
        by simp
      show ?thesis
      proof (cases x)
        case (Inl e)
        with Some True c h s1 show ?thesis by (simp add: handleFileChange_def)
      next
        case (Inr nx)
        with Some True c h s1 show ?thesis
          by (cases nx) (simp_all add: handleFileChange_def)
      qed
    qed
  qed
qed

lemma chan_of_openFile_loaded [simp]: "chan_of (snd (openFile_loaded w p r s)) = chan_of s"
  by (auto simp: openFile_loaded_def chan_of_def broadcast_def setupWatcher_def Let_def
           split: sum.splits)

lemma chan_of_openFile_begin [simp]: "chan_of (snd (openFile_begin w p s)) = chan_of s"
  by (simp add: openFile_begin_def chan_of_def Let_def)

lemma chan_of_openFile_compiled [simp]: "chan_of (snd (openFile_compiled r s)) = chan_of s"
  by (simp add: openFile_compiled_def chan_of_def)

lemma chan_of_openFile [simp]: "chan_of (snd (snd (openFile w p s))) = chan_of s"
proof -
  obtain x s1 where b: "openFile_begin w p s = (x, s1)"
    by (cases "openFile_begin w p s") auto
  with chan_of_openFile_begin [of w p s] have s1: "chan_of s1 = chan_of s"
    by simp
  show ?thesis
  proof (cases x)
    case (Inl e)
    with b s1 show ?thesis by (simp add: openFile_def)
  next
    case (Inr pr)
    obtain absPath scad where pr: "pr = (absPath, scad)"
      by (cases pr) auto
    show ?thesis
    proof (cases scad)
      case False
      with b s1 Inr pr show ?thesis by (simp add: openFile_def)
    next
      case True
      obtain result w' where c: "compileScad w absPath = (result, w')"
        by (cases "compileScad w absPath") auto
      obtain y s2 where d: "openFile_compiled result s1 = (y, s2)"
        by (cases "openFile_compiled result s1") auto
      with chan_of_openFile_compiled [of result s1] s1 have s2: "chan_of s2 = chan_of s"
        by simp
      from b s1 Inr pr True c d s2 show ?thesis
        by (cases y) (simp_all add: openFile_def)
    qed
  qed
qed

subsection \<open>The invariant holds in every state the process reaches\<close>

lemma chan_inv_init: "chan_inv init_state"
  by (simp add: chan_inv_def init_state_def inv_handles_def inv_table_def inv_timers_def
        inv_promises_def inv_debounce_def)

lemma find_timer:
  assumes "find (\<lambda>t. fst t = h) ts = Some t"
  shows "t \<in> set ts \<and> fst t = h"
  using assms by (induction ts) (auto split: if_splits)

lemma find_timer_None: "find (\<lambda>t. fst t = h) ts = None \<Longrightarrow> \<forall>t \<in> set ts. fst t \<noteq> h"
  by (induction ts) (auto split: if_splits)

lemma distinct_handle:
  "distinct (map fst ts) \<Longrightarrow> (h, d, c) \<in> set ts \<Longrightarrow> (h, d', c') \<in> set ts \<Longrightarrow> d' = d \<and> c' = c"
  by (metis eq_key_imp_eq_value prod.inject)

lemma complete_fields [simp]:
  "timers (complete r h out s) = filter (\<lambda>t. fst t \<noteq> h) (timers s)"
  "timerSeq (complete r h out s) = timerSeq s"
  "pendingRequests (complete r h out s) = (pendingRequests s)(r := None)"
  "requestIdCounter (complete r h out s) = requestIdCounter s"
  "settled (complete r h out s) = (settled s)(r := settled s r @ [out])"
  "debounceTimer (complete r h out s) = debounceTimer s"
  "resyncs (complete r h out s) = resyncs s"
  "sent (complete r h out s) = sent s"
  by (simp_all add: complete_def settle_def clearTimeout_def)

lemma inv_complete:
  assumes inv: "chan_inv s" and p: "pendingRequests s r = Some h"
  shows "chan_inv (complete r h out s)"
proof -
  from inv have ih: "inv_handles s" and it: "inv_table s" and im: "inv_timers s"
    and ip: "inv_promises s" and idb: "inv_debounce s"
    by (simp_all add: chan_inv_def)
  from it p obtain due where due: "(h, due, RequestTimeout r) \<in> set (timers s)"
    and r: "0 < r" "r \<le> requestIdCounter s" "settled s r = []"
    unfolding inv_table_def by blast
  have d: "distinct (map fst (timers s))"
    using ih by (simp add: inv_handles_def)
  have 1: "inv_handles (complete r h out s)"
    using ih by (auto simp: inv_handles_def distinct_map_filter)
  have 2: "inv_table (complete r h out s)"
    unfolding inv_table_def
  proof (intro allI impI)
    fix r' h'
    assume a: "pendingRequests (complete r h out s) r' = Some h'"
    then have ne: "r' \<noteq> r" and p': "pendingRequests s r' = Some h'"
      by (auto split: if_splits)
    from it p' obtain due' where t': "(h', due', RequestTimeout r') \<in> set (timers s)"
      and r': "0 < r'" "r' \<le> requestIdCounter s" "settled s r' = []"
      unfolding inv_table_def by blast
    have "h' \<noteq> h"
      using distinct_handle [OF d due, of due' "RequestTimeout r'"] t' ne by auto
    with t' r' ne
    show "0 < r' \<and> r' \<le> requestIdCounter (complete r h out s) \<and> settled (complete r h out s) r' = []
        \<and> (\<exists>due. (h', due, RequestTimeout r') \<in> set (timers (complete r h out s)))"
      by auto
  qed
  have 3: "inv_timers (complete r h out s)"
    unfolding inv_timers_def
  proof (intro allI impI)
    fix h' due' r'
    assume a: "(h', due', RequestTimeout r') \<in> set (timers (complete r h out s))"
    then have t': "(h', due', RequestTimeout r') \<in> set (timers s)" and ne: "h' \<noteq> h"
      by auto
    from im t' have p': "pendingRequests s r' = Some h'"
      unfolding inv_timers_def by blast
    with p ne have "r' \<noteq> r" by auto
    with p' show "pendingRequests (complete r h out s) r' = Some h'"
      by simp
  qed
  have 4: "inv_promises (complete r h out s)"
    using ip r by (auto simp: inv_promises_def)
  have 5: "inv_debounce (complete r h out s)"
    using idb by (auto simp: inv_debounce_def)
  from 1 2 3 4 5 show ?thesis by (simp add: chan_inv_def)
qed

lemma entry_resolve_complete: "entry_resolve r h data s = complete r h (Resolved data) s"
  by (simp add: entry_resolve_def complete_def)

lemma sendAndWait_eq:
  "sendAndWait now msg timeoutMs s =
     (requestIdCounter s + 1,
      case find (\<lambda>ws. readyState s ws = 1) (wsClients s) of
        Some ws \<Rightarrow>
          (registered now timeoutMs s)\<lparr>sent := sent s @ [(ws, Request (requestIdCounter s + 1) msg)]\<rparr>
      | None \<Rightarrow>
          complete (requestIdCounter s + 1) (timerSeq s) (Rejected (Error ''No browser connected''))
            (registered now timeoutMs s))"
  by (simp add: sendAndWait_def Let_def setTimeout_def registered_def complete_def
        clearTimeout_def settle_def split: option.splits)

lemma inv_registered:
  assumes inv: "chan_inv s"
  shows "chan_inv (registered now timeoutMs s)"
proof -
  from inv have ih: "inv_handles s" and it: "inv_table s" and im: "inv_timers s"
    and ip: "inv_promises s" and idb: "inv_debounce s"
    by (simp_all add: chan_inv_def)
  let ?s = "registered now timeoutMs s"
  let ?r = "requestIdCounter s + 1"
  have fresh: "\<forall>t \<in> set (timers s). fst t \<noteq> timerSeq s"
    using ih by (auto simp: inv_handles_def)
  have 1: "inv_handles ?s"
    using ih fresh by (auto simp: inv_handles_def registered_def)
  have 2: "inv_table ?s"
    unfolding inv_table_def
  proof (intro allI impI)
    fix r' h'
    assume a: "pendingRequests ?s r' = Some h'"
    show "0 < r' \<and> r' \<le> requestIdCounter ?s \<and> settled ?s r' = []
        \<and> (\<exists>due. (h', due, RequestTimeout r') \<in> set (timers ?s))"
    proof (cases "r' = ?r")
      case True
      with a ip show ?thesis
        by (auto simp: registered_def inv_promises_def)
    next
      case False
      with a have "pendingRequests s r' = Some h'"
        by (simp add: registered_def)
      with it show ?thesis
        unfolding inv_table_def by (fastforce simp: registered_def)
    qed
  qed
  have 3: "inv_timers ?s"
    unfolding inv_timers_def
  proof (intro allI impI)
    fix h' due' r'
    assume a: "(h', due', RequestTimeout r') \<in> set (timers ?s)"
    show "pendingRequests ?s r' = Some h'"
    proof (cases "(h', due', RequestTimeout r') \<in> set (timers s)")
      case True
      with im have p: "pendingRequests s r' = Some h'"
        unfolding inv_timers_def by blast
      with it have "r' \<le> requestIdCounter s"
        unfolding inv_table_def by blast
      with p show ?thesis by (simp add: registered_def)
    next
      case False
      with a show ?thesis by (simp add: registered_def)
    qed
  qed
  have 4: "inv_promises ?s"
    using ip by (auto simp: inv_promises_def registered_def)
  have 5: "inv_debounce ?s"
    using idb fresh by (fastforce simp: inv_debounce_def registered_def)
  from 1 2 3 4 5 show ?thesis by (simp add: chan_inv_def)
qed

lemma chan_inv_sent [simp]: "chan_inv (s\<lparr>sent := x\<rparr>) = chan_inv s"
  by (rule chan_inv_cong) (simp add: chan_of_def)

lemma chan_inv_resyncs [simp]: "chan_inv (s\<lparr>resyncs := x\<rparr>) = chan_inv s"
  by (simp add: chan_inv_def inv_handles_def inv_table_def inv_timers_def inv_promises_def
        inv_debounce_def)

lemma inv_sendAndWait:
  assumes "chan_inv s"
  shows "chan_inv (snd (sendAndWait now msg timeoutMs s))"
proof (cases "find (\<lambda>ws. readyState s ws = 1) (wsClients s)")
  case None
  have "pendingRequests (registered now timeoutMs s) (requestIdCounter s + 1) = Some (timerSeq s)"
    by (simp add: registered_def)
  from inv_complete [OF inv_registered [OF assms] this] None show ?thesis
    by (simp add: sendAndWait_eq)
next
  case (Some ws)
  with inv_registered [OF assms] show ?thesis
    by (simp add: sendAndWait_eq)
qed

lemma inv_on_message:
  assumes "chan_inv s"
  shows "chan_inv (on_message raw s)"
proof (cases raw)
  case Unparsable
  with assms show ?thesis by (simp add: on_message_def)
next
  case (Message rid data)
  show ?thesis
  proof (cases rid)
    case None
    with assms Message show ?thesis by (simp add: on_message_def)
  next
    case (Some n)
    show ?thesis
    proof (cases "pendingRequests s (nat n)")
      case None
      with assms Message Some show ?thesis by (simp add: on_message_def)
    next
      case (Some h)
      from inv_complete [OF assms this] assms Message \<open>rid = Some n\<close> Some show ?thesis
        by (simp add: on_message_def entry_resolve_complete)
    qed
  qed
qed

text \<open>Disarming a debounce timer, or a handle that is not armed.\<close>

lemma inv_clear_debounce:
  assumes inv: "chan_inv s" and db: "\<forall>due cb. (h, due, cb) \<in> set (timers s) \<longrightarrow> cb = Debounce"
  shows "chan_inv (clearTimeout h s)"
proof -
  from inv have ih: "inv_handles s" and it: "inv_table s" and im: "inv_timers s"
    and ip: "inv_promises s" and idb: "inv_debounce s"
    by (simp_all add: chan_inv_def)
  have 1: "inv_handles (clearTimeout h s)"
    using ih by (auto simp: inv_handles_def clearTimeout_def distinct_map_filter)
  have 2: "inv_table (clearTimeout h s)"
    unfolding inv_table_def
  proof (intro allI impI)
    fix r' h'
    assume "pendingRequests (clearTimeout h s) r' = Some h'"
    then have "pendingRequests s r' = Some h'"
      by (simp add: clearTimeout_def)
    with it obtain due' where t': "(h', due', RequestTimeout r') \<in> set (timers s)"
      and r': "0 < r'" "r' \<le> requestIdCounter s" "settled s r' = []"
      unfolding inv_table_def by blast
    from t' db have "h' \<noteq> h" by auto
    with t' r'
    show "0 < r' \<and> r' \<le> requestIdCounter (clearTimeout h s) \<and> settled (clearTimeout h s) r' = []
        \<and> (\<exists>due. (h', due, RequestTimeout r') \<in> set (timers (clearTimeout h s)))"
      by (auto simp: clearTimeout_def)
  qed
  have 3: "inv_timers (clearTimeout h s)"
    using im by (auto simp: inv_timers_def clearTimeout_def)
  have 4: "inv_promises (clearTimeout h s)"
    using ip by (auto simp: inv_promises_def clearTimeout_def)
  have 5: "inv_debounce (clearTimeout h s)"
    using idb by (auto simp: inv_debounce_def clearTimeout_def)
  from 1 2 3 4 5 show ?thesis by (simp add: chan_inv_def)
qed

lemma inv_timer_fires:
  assumes inv: "chan_inv s"
  shows "chan_inv (timer_fires h s)"
proof (cases "find (\<lambda>t. fst t = h) (timers s)")
  case None
  with inv show ?thesis by (simp add: timer_fires_def)
next
  case (Some t)
  from find_timer [OF Some] obtain due cb where t: "t = (h, due, cb)" "(h, due, cb) \<in> set (timers s)"
    by (cases t) auto
  from inv have d: "distinct (map fst (timers s))" and im: "inv_timers s"
    by (simp_all add: chan_inv_def inv_handles_def)
  show ?thesis
  proof (cases cb)
    case (RequestTimeout r)
    with im t have p: "pendingRequests s r = Some h"
      unfolding inv_timers_def by blast
    have "timer_fires h s = complete r h (Rejected (Error ''Timeout waiting for browser response'')) s"
      using Some t RequestTimeout
      by (simp add: timer_fires_def run_callback_def complete_def clearTimeout_def)
    with inv_complete [OF inv p] show ?thesis by simp
  next
    case Debounce
    have "\<forall>due' cb'. (h, due', cb') \<in> set (timers s) \<longrightarrow> cb' = Debounce"
      using distinct_handle [OF d t(2)] Debounce by blast
    from inv_clear_debounce [OF inv this] Some t Debounce show ?thesis
      by (simp add: timer_fires_def run_callback_def)
  qed
qed

lemma inv_fires: "chan_inv s \<Longrightarrow> chan_inv (foldl (\<lambda>s h. timer_fires h s) s hs)"
  by (induction hs arbitrary: s) (simp_all add: inv_timer_fires)

lemma inv_advance: "chan_inv s \<Longrightarrow> chan_inv (advance now s)"
  by (simp add: advance_def inv_fires)

lemma inv_on_change:
  assumes inv: "chan_inv s"
  shows "chan_inv (on_change now s)"
proof -
  let ?s1 = "case debounceTimer s of Some h \<Rightarrow> clearTimeout h s | None \<Rightarrow> s"
  have s1: "chan_inv ?s1"
  proof (cases "debounceTimer s")
    case None
    with inv show ?thesis by simp
  next
    case (Some h)
    with inv have "\<forall>due cb. (h, due, cb) \<in> set (timers s) \<longrightarrow> cb = Debounce"
      by (simp add: chan_inv_def inv_debounce_def)
    from inv_clear_debounce [OF inv this] Some show ?thesis by simp
  qed
  then have ih: "inv_handles ?s1" and it: "inv_table ?s1" and im: "inv_timers ?s1"
    and ip: "inv_promises ?s1"
    by (simp_all add: chan_inv_def)
  let ?s = "on_change now s"
  have eq: "?s = ?s1\<lparr>timers := timers ?s1 @ [(timerSeq ?s1, now + 300, Debounce)],
      timerSeq := timerSeq ?s1 + 1, debounceTimer := Some (timerSeq ?s1)\<rparr>"
    by (simp add: on_change_def Let_def setTimeout_def)
  have fresh: "\<forall>t \<in> set (timers ?s1). fst t \<noteq> timerSeq ?s1"
    using ih by (auto simp: inv_handles_def)
  have 1: "inv_handles ?s"
    unfolding eq using ih fresh by (auto simp: inv_handles_def)
  have 2: "inv_table ?s"
    unfolding eq using it by (fastforce simp: inv_table_def)
  have 3: "inv_timers ?s"
    unfolding eq using im by (auto simp: inv_timers_def)
  have 4: "inv_promises ?s"
    unfolding eq using ip by (auto simp: inv_promises_def)
  have 5: "inv_debounce ?s"
    unfolding eq using fresh by (fastforce simp: inv_debounce_def)
  from 1 2 3 4 5 show ?thesis by (simp add: chan_inv_def)
qed

lemma chan_of_frame_steps:
  "chan_of (do_step (Connect w ws) s) = chan_of s"
  "chan_of (do_step (Close ws) s) = chan_of s"
  "chan_of (do_step (SocketState ws st) s) = chan_of s"
  "chan_of (do_step (Open w p) s) = chan_of s"
  "chan_of (do_step (Resync w) s) = chan_of s"
proof -
  show "chan_of (do_step (Connect w ws) s) = chan_of s"
    by (simp add: on_connection_def chan_of_def Let_def split: option.splits)
  show "chan_of (do_step (Close ws) s) = chan_of s"
    by (simp add: on_close_def chan_of_def)
  show "chan_of (do_step (SocketState ws st) s) = chan_of s"
    by (simp add: chan_of_def)
  show "chan_of (do_step (Open w p) s) = chan_of s"
    by simp
  show "chan_of (do_step (Resync w) s) = chan_of s"
    by simp
qed

lemma inv_do_step:
  assumes "chan_inv s"
  shows "chan_inv (do_step e s)"
proof (cases e)
  case (Send now msg timeoutMs)
  with assms show ?thesis by (simp add: inv_sendAndWait)
next
  case (Receive raw)
  with assms show ?thesis by (simp add: inv_on_message)
next
  case (Fire h)
  with assms show ?thesis by (simp add: inv_timer_fires)
next
  case (Advance now)
  with assms show ?thesis by (simp add: inv_advance)
next
  case (Change now)
  with assms show ?thesis by (simp add: inv_on_change)
next
  case (Connect w ws)
  with assms chan_inv_cong [OF chan_of_frame_steps(1) [of w ws s]] show ?thesis by simp
next
  case (Close ws)
  with assms chan_inv_cong [OF chan_of_frame_steps(2) [of ws s]] show ?thesis by simp
next
  case (SocketState ws st)
  with assms chan_inv_cong [OF chan_of_frame_steps(3) [of ws st s]] show ?thesis by simp
next
  case (Open w p)
  with assms chan_inv_cong [OF chan_of_frame_steps(4) [of w p s]] show ?thesis by simp
next
  case (Resync w)
  with assms chan_inv_cong [OF chan_of_frame_steps(5) [of w s]] show ?thesis by simp
qed

lemma inv_run: "chan_inv s \<Longrightarrow> chan_inv (run steps s)"
  unfolding run_def by (induction steps arbitrary: s) (simp_all add: inv_do_step)

subsection \<open>A finished request stays as it is\<close>

lemma finished_cong:
  "chan_of s' = chan_of s \<Longrightarrow> finished s' r = finished s r \<and> settled s' r = settled s r"
  by (simp add: chan_of_def finished_def)

lemma finished_complete:
  assumes "finished s r" and "pendingRequests s r' = Some h"
  shows "finished (complete r' h out s) r \<and> settled (complete r' h out s) r = settled s r"
  using assms by (auto simp: finished_def)

lemma finished_registered:
  assumes "finished s r"
  shows "finished (registered now ms s) r \<and> settled (registered now ms s) r = settled s r
    \<and> r \<noteq> requestIdCounter s + 1"
  using assms by (auto simp: finished_def registered_def)

lemma finished_sendAndWait:
  assumes "finished s r"
  shows "finished (snd (sendAndWait now msg ms s)) r
    \<and> settled (snd (sendAndWait now msg ms s)) r = settled s r"
proof (cases "find (\<lambda>ws. readyState s ws = 1) (wsClients s)")
  case None
  have p: "pendingRequests (registered now ms s) (requestIdCounter s + 1) = Some (timerSeq s)"
    by (simp add: registered_def)
  from finished_registered [OF assms, of now ms]
    finished_complete [OF _ p, of r "Rejected (Error ''No browser connected'')"] None
  show ?thesis
    by (simp add: sendAndWait_eq)
next
  case (Some ws)
  with finished_registered [OF assms, of now ms] show ?thesis
    by (simp add: sendAndWait_eq finished_def)
qed

lemma on_message_cases:
  "on_message raw s = s
   \<or> (\<exists>n h data. raw = Message (Some n) data \<and> 0 < n \<and> pendingRequests s (nat n) = Some h
        \<and> on_message raw s = complete (nat n) h (Resolved data) s)"
  by (auto simp: on_message_def entry_resolve_complete split: inbound.splits option.splits)

lemma finished_on_message:
  assumes "finished s r"
  shows "finished (on_message raw s) r \<and> settled (on_message raw s) r = settled s r"
  using on_message_cases [of raw s] assms finished_complete [OF assms]
  by auto

lemma timer_fires_cases:
  assumes "chan_inv s"
  shows "timer_fires h s = s
   \<or> (\<exists>r. pendingRequests s r = Some h
        \<and> timer_fires h s = complete r h (Rejected (Error ''Timeout waiting for browser response'')) s)
   \<or> (\<exists>due. (h, due, Debounce) \<in> set (timers s)
        \<and> timer_fires h s = (clearTimeout h s)\<lparr>resyncs := resyncs s @ [due]\<rparr>)"
proof (cases "find (\<lambda>t. fst t = h) (timers s)")
  case None
  then show ?thesis by (simp add: timer_fires_def)
next
  case (Some t)
  from find_timer [OF Some] obtain due cb where t: "t = (h, due, cb)" "(h, due, cb) \<in> set (timers s)"
    by (cases t) auto
  from assms have im: "inv_timers s"
    by (simp add: chan_inv_def)
  show ?thesis
  proof (cases cb)
    case (RequestTimeout r)
    with im t have p: "pendingRequests s r = Some h"
      unfolding inv_timers_def by blast
    have "timer_fires h s = complete r h (Rejected (Error ''Timeout waiting for browser response'')) s"
      using Some t RequestTimeout
      by (simp add: timer_fires_def run_callback_def complete_def clearTimeout_def)
    with p show ?thesis by blast
  next
    case Debounce
    with Some t have "timer_fires h s = (clearTimeout h s)\<lparr>resyncs := resyncs s @ [due]\<rparr>"
      by (simp add: timer_fires_def run_callback_def clearTimeout_def)
    with t Debounce show ?thesis by blast
  qed
qed

lemma finished_timer_fires:
  assumes "chan_inv s" and "finished s r"
  shows "finished (timer_fires h s) r \<and> settled (timer_fires h s) r = settled s r"
  using timer_fires_cases [OF assms(1), of h] assms(2) finished_complete [OF assms(2)]
  by (auto simp: finished_def clearTimeout_def)

lemma finished_fires:
  "chan_inv s \<Longrightarrow> finished s r \<Longrightarrow>
   finished (foldl (\<lambda>s h. timer_fires h s) s hs) r
   \<and> settled (foldl (\<lambda>s h. timer_fires h s) s hs) r = settled s r"
proof (induction hs arbitrary: s)
  case Nil
  then show ?case by simp
next
  case (Cons h hs)
  from finished_timer_fires [OF Cons.prems, of h] inv_timer_fires [OF Cons.prems(1), of h]
    Cons.IH [of "timer_fires h s"]
  show ?case by simp
qed

lemma finished_on_change:
  assumes "finished s r"
  shows "finished (on_change now s) r \<and> settled (on_change now s) r = settled s r"
  using assms
  by (auto simp: finished_def on_change_def Let_def setTimeout_def clearTimeout_def
           split: option.splits)

lemma finished_do_step:
  assumes "chan_inv s" and "finished s r"
  shows "finished (do_step e s) r \<and> settled (do_step e s) r = settled s r"
proof (cases e)
  case (Send now msg timeoutMs)
  with finished_sendAndWait [OF assms(2)] show ?thesis by simp
next
  case (Receive raw)
  with finished_on_message [OF assms(2)] show ?thesis by simp
next
  case (Fire h)
  with finished_timer_fires [OF assms] show ?thesis by simp
next
  case (Advance now)
  with finished_fires [OF assms] show ?thesis by (simp add: advance_def)
next
  case (Change now)
  with finished_on_change [OF assms(2)] show ?thesis by simp
next
  case (Connect w ws)
  with assms(2) finished_cong [OF chan_of_frame_steps(1) [of w ws s], of r] show ?thesis by simp
next
  case (Close ws)
  with assms(2) finished_cong [OF chan_of_frame_steps(2) [of ws s], of r] show ?thesis by simp
next
  case (SocketState ws st)
  with assms(2) finished_cong [OF chan_of_frame_steps(3) [of ws st s], of r] show ?thesis by simp
next
  case (Open w p)
  with assms(2) finished_cong [OF chan_of_frame_steps(4) [of w p s], of r] show ?thesis by simp
next
  case (Resync w)
  with assms(2) finished_cong [OF chan_of_frame_steps(5) [of w s], of r] show ?thesis by simp
qed

lemma finished_run:
  "chan_inv s \<Longrightarrow> finished s r \<Longrightarrow> settled (run steps s) r = settled s r"
proof (induction steps arbitrary: s)
  case Nil
  then show ?case by (simp add: run_def)
next
  case (Cons e steps)
  from finished_do_step [OF Cons.prems, of e] inv_do_step [OF Cons.prems(1), of e]
    Cons.IH [of "do_step e s"]
  show ?case by (simp add: run_def)
qed

subsection \<open>Response or timeout, whichever comes first\<close>

lemma complete_finishes:
  assumes "chan_inv s" and "pendingRequests s r = Some h"
  shows "finished (complete r h out s) r \<and> settled (complete r h out s) r = [out]
    \<and> chan_inv (complete r h out s)
    \<and> find (\<lambda>t. fst t = h) (timers (complete r h out s)) = None"
proof -
  from assms have "r \<le> requestIdCounter s" "settled s r = []"
    by (auto simp: chan_inv_def inv_table_def)
  moreover have "find (\<lambda>t. fst t = h) (filter (\<lambda>t. fst t \<noteq> h) ts) = None" for ts :: "(nat \<times> nat \<times> timer_action) list"
    by (induction ts) auto
  ultimately show ?thesis
    using inv_complete [OF assms] by (simp add: finished_def)
qed

lemma late_message_discarded:
  "pendingRequests s (nat n) = None \<Longrightarrow> on_message (Message (Some n) data) s = s"
  by (simp add: on_message_def)

text \<open>
  C5. Let request \<open>r\<close> be in the table with the timer \<open>h\<close>, in a state the process can
  reach. If its response arrives first, the entry is removed and the promise is resolved with
  it; the timer is disarmed, so that its firing does nothing. If the timer fires first, the
  entry is removed and the promise is rejected with the timeout error; a response that arrives
  later finds no entry and is discarded, the state being what it was. In both cases the
  promise stays settled exactly once whatever the process does afterwards.
\<close>

theorem pending_request_completes_once:
  assumes "chan_inv s" and "pendingRequests s r = Some h"
  shows "pendingRequests (on_message (Message (Some (int r)) data) s) r = None
    \<and> settled (on_message (Message (Some (int r)) data) s) r = [Resolved data]
    \<and> timer_fires h (on_message (Message (Some (int r)) data) s) =
        on_message (Message (Some (int r)) data) s
    \<and> (\<forall>steps. settled (run steps (on_message (Message (Some (int r)) data) s)) r = [Resolved data])
    \<and> pendingRequests (timer_fires h s) r = None
    \<and> settled (timer_fires h s) r = [Rejected (Error ''Timeout waiting for browser response'')]
    \<and> on_message (Message (Some (int r)) data) (timer_fires h s) = timer_fires h s
    \<and> (\<forall>steps. settled (run steps (timer_fires h s)) r =
          [Rejected (Error ''Timeout waiting for browser response'')])"
proof -
  let ?m = "on_message (Message (Some (int r)) data) s"
  let ?t = "timer_fires h s"
  let ?e = "Rejected (Error ''Timeout waiting for browser response'')"
  from assms have r: "0 < r" and tm: "\<exists>due. (h, due, RequestTimeout r) \<in> set (timers s)"
    and d: "distinct (map fst (timers s))"
    by (auto simp: chan_inv_def inv_table_def inv_handles_def)
  have m: "?m = complete r h (Resolved data) s"
    using assms(2) r by (simp add: on_message_def entry_resolve_complete)
  from tm obtain due where due: "(h, due, RequestTimeout r) \<in> set (timers s)"
    by blast
  have "find (\<lambda>t. fst t = h) (timers s) = Some (h, due, RequestTimeout r)"
  proof (cases "find (\<lambda>t. fst t = h) (timers s)")
    case None
    with find_timer_None [OF None] due show ?thesis by auto
  next
    case (Some t)
    from find_timer [OF Some] obtain due' cb where "t = (h, due', cb)" "(h, due', cb) \<in> set (timers s)"
      by (cases t) auto
    with distinct_handle [OF d due, of due' cb] Some show ?thesis by simp
  qed
  then have t: "?t = complete r h ?e s"
    by (simp add: timer_fires_def run_callback_def complete_def clearTimeout_def)
  from complete_finishes [OF assms, of "Resolved data"]
  have mf: "finished ?m r" "settled ?m r = [Resolved data]" "chan_inv ?m"
    "find (\<lambda>t. fst t = h) (timers ?m) = None"
    by (simp_all add: m)
  from complete_finishes [OF assms, of ?e]
  have tf: "finished ?t r" "settled ?t r = [?e]" "chan_inv ?t"
    by (simp_all add: t)
  have 1: "pendingRequests ?m r = None" using mf(1) by (simp add: finished_def)
  have 2: "timer_fires h ?m = ?m" using mf(4) by (simp add: timer_fires_def)
  have 3: "\<forall>steps. settled (run steps ?m) r = [Resolved data]"
    using finished_run [OF mf(3) mf(1)] mf(2) by simp
  have 4: "pendingRequests ?t r = None" using tf(1) by (simp add: finished_def)
  have 5: "on_message (Message (Some (int r)) data) ?t = ?t"
    using 4 by (simp add: late_message_discarded)
  have 6: "\<forall>steps. settled (run steps ?t) r = [?e]"
    using finished_run [OF tf(3) tf(1)] tf(2) by simp
  from 1 mf(2) 2 3 4 tf(2) 5 6 show ?thesis by blast
qed

lemma chan_inv_demo_state: "chan_inv demo_state"
  using chan_inv_cong [of demo_state init_state] chan_inv_init
  by (simp add: demo_state_def chan_of_def)

lemma demo_waiting_entry: "pendingRequests demo_waiting 1 = Some 0"
  by (simp add: demo_waiting_def sendAndWait_eq demo_state_def init_state_def registered_def)

theorem pending_request_completes_once_witness:
  "chan_inv demo_waiting \<and> pendingRequests demo_waiting 1 = Some 0
   \<and> settled (on_message (Message (Some 1) ''ok'') demo_waiting) 1 = [Resolved ''ok'']
   \<and> timer_fires 0 (on_message (Message (Some 1) ''ok'') demo_waiting) =
       on_message (Message (Some 1) ''ok'') demo_waiting
   \<and> settled (timer_fires 0 demo_waiting) 1 =
       [Rejected (Error ''Timeout waiting for browser response'')]
   \<and> on_message (Message (Some 1) ''ok'') (timer_fires 0 demo_waiting) = timer_fires 0 demo_waiting"
proof -
  have a: "chan_inv demo_waiting"
    unfolding demo_waiting_def by (rule inv_sendAndWait [OF chan_inv_demo_state])
  from pending_request_completes_once [OF a demo_waiting_entry, of "''ok''"] a demo_waiting_entry
  show ?thesis by simp
qed

subsection \<open>No browser connected\<close>

text \<open>
  C6. When no socket of the peer set is open, \<open>sendAndWait\<close> rejects the promise at once
  with the error \<open>No browser connected\<close>; when it returns, the identifier and a timer
  handle are used up and nothing else has changed: the table is what it was and holds no
  entry for the identifier, no timer is armed for it, and nothing was sent.
\<close>

theorem no_ready_peer_fails_immediately:
  assumes "chan_inv s" and "\<forall>ws \<in> set (wsClients s). readyState s ws \<noteq> 1"
  shows "sendAndWait now msg timeoutMs s =
      (requestIdCounter s + 1,
       s\<lparr>requestIdCounter := requestIdCounter s + 1, timerSeq := timerSeq s + 1,
         settled := (settled s)(requestIdCounter s + 1 := [Rejected (Error ''No browser connected'')])\<rparr>)
    \<and> pendingRequests s (requestIdCounter s + 1) = None"
proof -
  let ?r = "requestIdCounter s + 1"
  have none: "find (\<lambda>ws. readyState s ws = 1) (wsClients s) = None"
    using assms(2) by (induction "wsClients s") (auto simp: find_None_iff)
  have p: "pendingRequests s ?r = None"
  proof (cases "pendingRequests s ?r")
    case (Some h)
    with assms(1) have "?r \<le> requestIdCounter s"
      unfolding chan_inv_def inv_table_def by blast
    then show ?thesis by simp
  qed simp
  from assms(1) have st: "settled s ?r = []"
    by (simp add: chan_inv_def inv_promises_def)
  from assms(1) have "\<forall>t \<in> set (timers s). fst t \<noteq> timerSeq s"
    by (auto simp: chan_inv_def inv_handles_def)
  then have f: "filter (\<lambda>t. fst t \<noteq> timerSeq s) (timers s) = timers s"
    by (simp add: filter_id_conv)
  have u: "(pendingRequests s)(?r := None) = pendingRequests s"
    using p by (simp add: fun_upd_idem)
  show ?thesis
    using none p f st u
    by (simp add: sendAndWait_eq complete_def registered_def settle_def clearTimeout_def)
qed

theorem no_ready_peer_fails_immediately_witness:
  "chan_inv init_state \<and> wsClients init_state = []
   \<and> sendAndWait 1000 ''{}'' 10000 init_state =
       (1, init_state\<lparr>requestIdCounter := 1, timerSeq := 1,
             settled := (settled init_state)(1 := [Rejected (Error ''No browser connected'')])\<rparr>)
   \<and> pendingRequests init_state 1 = None"
proof -
  have a: "\<forall>ws \<in> set (wsClients init_state). readyState init_state ws \<noteq> 1"
    by (simp add: init_state_def)
  from no_ready_peer_fails_immediately [OF chan_inv_init a, of 1000 "''{}''" 10000] chan_inv_init
  show ?thesis by (simp add: init_state_def)
qed

subsection \<open>The debounce window\<close>

lemma find_armed:
  assumes "distinct (map fst ts)" and "(h, due, cb) \<in> set ts"
  shows "find (\<lambda>t. fst t = h) ts = Some (h, due, cb)"
proof (cases "find (\<lambda>t. fst t = h) ts")
  case None
  with find_timer_None [OF None] assms(2) show ?thesis by auto
next
  case (Some t)
  from find_timer [OF Some] obtain due' cb' where "t = (h, due', cb')" "(h, due', cb') \<in> set ts"
    by (cases t) auto
  with distinct_handle [OF assms, of due' cb'] Some show ?thesis by simp
qed

lemma timer_fires_armed:
  assumes "distinct (map fst (timers s))" and "(h, due, cb) \<in> set (timers s)"
  shows "timers (timer_fires h s) = filter (\<lambda>t. fst t \<noteq> h) (timers s)"
    and "resyncs (timer_fires h s) = resyncs s @ (if cb = Debounce then [due] else [])"
    and "debounceTimer (timer_fires h s) = debounceTimer s"
    and "timerSeq (timer_fires h s) = timerSeq s"
  using find_armed [OF assms]
  by (cases cb; simp add: timer_fires_def run_callback_def clearTimeout_def settle_def)+

lemma fires_spec:
  "distinct (map fst (timers s)) \<Longrightarrow> set ds \<subseteq> set (timers s) \<Longrightarrow> distinct (map fst ds) \<Longrightarrow>
   timers (foldl (\<lambda>s h. timer_fires h s) s (map fst ds)) =
     filter (\<lambda>t. fst t \<notin> fst ` set ds) (timers s)
   \<and> resyncs (foldl (\<lambda>s h. timer_fires h s) s (map fst ds)) =
       resyncs s @ map (\<lambda>t. fst (snd t)) (filter (\<lambda>t. snd (snd t) = Debounce) ds)
   \<and> debounceTimer (foldl (\<lambda>s h. timer_fires h s) s (map fst ds)) = debounceTimer s
   \<and> timerSeq (foldl (\<lambda>s h. timer_fires h s) s (map fst ds)) = timerSeq s"
proof (induction ds arbitrary: s)
  case Nil
  then show ?case by simp
next
  case (Cons d ds)
  obtain h due cb where d: "d = (h, due, cb)"
    by (cases d) auto
  let ?s = "timer_fires h s"
  from Cons.prems d have m: "(h, due, cb) \<in> set (timers s)"
    by simp
  note f = timer_fires_armed [OF Cons.prems(1) m]
  have 1: "distinct (map fst (timers ?s))"
    using Cons.prems(1) by (simp add: f(1) distinct_map_filter)
  have nh: "\<forall>t \<in> set ds. fst t \<noteq> h"
    using Cons.prems(3) d by auto
  have 2: "set ds \<subseteq> set (timers ?s)"
    using Cons.prems(2) nh by (auto simp: f(1))
  have 3: "distinct (map fst ds)"
    using Cons.prems(3) by simp
  have t: "filter (\<lambda>t. fst t \<notin> fst ` set ds) (filter (\<lambda>t. fst t \<noteq> h) (timers s)) =
      filter (\<lambda>t. fst t \<notin> fst ` set (d # ds)) (timers s)"
    by (auto simp: d intro: filter_cong)
  from Cons.IH [OF 1 2 3] show ?case
    by (simp add: d f t)
qed

lemma due_timers:
  assumes "distinct (map fst (timers s))"
  shows "set (sort_key (\<lambda>t. fst (snd t)) (filter (\<lambda>t. fst (snd t) \<le> now) (timers s))) \<subseteq> set (timers s)"
    and "distinct (map fst (sort_key (\<lambda>t. fst (snd t)) (filter (\<lambda>t. fst (snd t) \<le> now) (timers s))))"
proof -
  let ?f = "filter (\<lambda>t. fst (snd t) \<le> now) (timers s)"
  show "set (sort_key (\<lambda>t. fst (snd t)) ?f) \<subseteq> set (timers s)"
    by auto
  have "distinct (map fst ?f)"
    using assms by (simp add: distinct_map_filter)
  then show "distinct (map fst (sort_key (\<lambda>t. fst (snd t)) ?f))"
    by (simp add: distinct_map)
qed

lemma advance_spec:
  assumes "distinct (map fst (timers s))"
  shows "timers (advance now s) = filter (\<lambda>t. now < fst (snd t)) (timers s)"
    and "resyncs (advance now s) =
      resyncs s @ map (\<lambda>t. fst (snd t))
        (sort_key (\<lambda>t. fst (snd t)) (filter (\<lambda>t. fst (snd t) \<le> now) (debounce_armed s)))"
    and "debounceTimer (advance now s) = debounceTimer s"
    and "timerSeq (advance now s) = timerSeq s"
proof -
  let ?due = "sort_key (\<lambda>t. fst (snd t)) (filter (\<lambda>t. fst (snd t) \<le> now) (timers s))"
  note sp = fires_spec [OF assms due_timers [OF assms, of now]]
  have "filter (\<lambda>t. fst t \<notin> fst ` set ?due) (timers s) = filter (\<lambda>t. now < fst (snd t)) (timers s)"
  proof (rule filter_cong [OF refl])
    fix t assume t: "t \<in> set (timers s)"
    have "fst t \<in> fst ` set ?due \<longleftrightarrow> fst (snd t) \<le> now"
    proof
      assume "fst t \<in> fst ` set ?due"
      then obtain t' where t': "t' \<in> set (timers s)" "fst (snd t') \<le> now" "fst t' = fst t"
        by auto
      with t assms have "t' = t"
        by (metis distinct_map inj_onD)
      with t' show "fst (snd t) \<le> now" by simp
    next
      assume "fst (snd t) \<le> now"
      with t show "fst t \<in> fst ` set ?due" by auto
    qed
    then show "(fst t \<notin> fst ` set ?due) = (now < fst (snd t))" by auto
  qed
  with sp show "timers (advance now s) = filter (\<lambda>t. now < fst (snd t)) (timers s)"
    by (simp add: advance_def)
  have "filter (\<lambda>t. snd (snd t) = Debounce) ?due =
      sort_key (\<lambda>t. fst (snd t)) (filter (\<lambda>t. fst (snd t) \<le> now) (debounce_armed s))"
    by (simp add: filter_sort debounce_armed_def conj_commute)
  with sp show "resyncs (advance now s) =
      resyncs s @ map (\<lambda>t. fst (snd t))
        (sort_key (\<lambda>t. fst (snd t)) (filter (\<lambda>t. fst (snd t) \<le> now) (debounce_armed s)))"
    by (simp add: advance_def)
  from sp show "debounceTimer (advance now s) = debounceTimer s"
    and "timerSeq (advance now s) = timerSeq s"
    by (simp_all add: advance_def)
qed

lemma advance_debounce_armed:
  assumes "distinct (map fst (timers s))"
  shows "debounce_armed (advance now s) = filter (\<lambda>t. now < fst (snd t)) (debounce_armed s)"
  by (auto simp: debounce_armed_def advance_spec(1) [OF assms] intro: filter_cong)

lemma on_change_spec:
  "timers (on_change now s) =
     (case debounceTimer s of None \<Rightarrow> timers s
      | Some h \<Rightarrow> filter (\<lambda>t. fst t \<noteq> h) (timers s)) @ [(timerSeq s, now + 300, Debounce)]"
  "resyncs (on_change now s) = resyncs s"
  "debounceTimer (on_change now s) = Some (timerSeq s)"
  by (simp_all add: on_change_def Let_def setTimeout_def clearTimeout_def split: option.splits)

lemma change_when_quiet:
  assumes inv: "chan_inv s" and q: "debounce_armed s = []"
  shows "waiting_since t (on_change t (advance t s))"
    and "resyncs (on_change t (advance t s)) = resyncs s"
proof -
  from inv have d: "distinct (map fst (timers s))"
    by (simp add: chan_inv_def inv_handles_def)
  let ?a = "advance t s"
  have qa: "debounce_armed ?a = []"
    by (simp add: advance_debounce_armed [OF d] q)
  have "debounce_armed (on_change t ?a) = [(timerSeq ?a, t + 300, Debounce)]"
    using qa by (auto simp: debounce_armed_def on_change_spec filter_empty_conv split: option.splits)
  with inv_on_change [OF inv_advance [OF inv]] show "waiting_since t (on_change t ?a)"
    by (simp add: waiting_since_def on_change_spec)
  show "resyncs (on_change t ?a) = resyncs s"
    by (simp add: on_change_spec advance_spec(2) [OF d] q)
qed

lemma change_in_window:
  assumes w: "waiting_since t s" and t': "t' < t + 300"
  shows "waiting_since t' (on_change t' (advance t' s))"
    and "resyncs (on_change t' (advance t' s)) = resyncs s"
proof -
  from w obtain h where inv: "chan_inv s" and h: "debounceTimer s = Some h"
    and a: "debounce_armed s = [(h, t + 300, Debounce)]"
    by (auto simp: waiting_since_def)
  from inv have d: "distinct (map fst (timers s))"
    by (simp add: chan_inv_def inv_handles_def)
  let ?a = "advance t' s"
  have aa: "debounce_armed ?a = [(h, t + 300, Debounce)]"
    using t' by (simp add: advance_debounce_armed [OF d] a)
  have ha: "debounceTimer ?a = Some h"
    by (simp add: advance_spec(3) [OF d] h)
  have "filter (\<lambda>t. snd (snd t) = Debounce) (filter (\<lambda>t. fst t \<noteq> h) (timers ?a)) =
      filter (\<lambda>t. fst t \<noteq> h) (filter (\<lambda>t. snd (snd t) = Debounce) (timers ?a))"
    by (simp add: conj_commute)
  also have "\<dots> = []"
    using aa by (simp add: debounce_armed_def)
  finally have "debounce_armed (on_change t' ?a) = [(timerSeq ?a, t' + 300, Debounce)]"
    using ha by (simp add: debounce_armed_def on_change_spec)
  with inv_on_change [OF inv_advance [OF inv]] show "waiting_since t' (on_change t' ?a)"
    by (simp add: waiting_since_def on_change_spec)
  show "resyncs (on_change t' ?a) = resyncs s"
    using t' by (simp add: on_change_spec advance_spec(2) [OF d] a)
qed

lemma burst_goes_on:
  "waiting_since t s \<Longrightarrow> within_window (t # ts) \<Longrightarrow>
   waiting_since (last (t # ts)) (changes_at ts s) \<and> resyncs (changes_at ts s) = resyncs s"
proof (induction ts arbitrary: t s)
  case Nil
  then show ?case by (simp add: changes_at_def)
next
  case (Cons t' ts)
  from Cons.prems(2) have t': "t' < t + 300" and w: "within_window (t' # ts)"
    by simp_all
  from change_in_window [OF Cons.prems(1) t'] Cons.IH [OF _ w, of "on_change t' (advance t' s)"]
  show ?case by (simp add: changes_at_def)
qed

lemma timer_fires_when_due:
  assumes w: "waiting_since t s" and T: "t + 300 \<le> T"
  shows "resyncs (advance T s) = resyncs s @ [t + 300]"
    and "debounce_armed (advance T s) = []"
proof -
  from w obtain h where inv: "chan_inv s" and a: "debounce_armed s = [(h, t + 300, Debounce)]"
    by (auto simp: waiting_since_def)
  from inv have d: "distinct (map fst (timers s))"
    by (simp add: chan_inv_def inv_handles_def)
  show "resyncs (advance T s) = resyncs s @ [t + 300]"
    using T by (simp add: advance_spec(2) [OF d] a)
  show "debounce_armed (advance T s) = []"
    using T by (simp add: advance_debounce_armed [OF d] a)
qed

lemma not_yet_due:
  assumes w: "waiting_since t s" and T: "T < t + 300"
  shows "resyncs (advance T s) = resyncs s"
proof -
  from w obtain h where inv: "chan_inv s" and a: "debounce_armed s = [(h, t + 300, Debounce)]"
    by (auto simp: waiting_since_def)
  from inv have d: "distinct (map fst (timers s))"
    by (simp add: chan_inv_def inv_handles_def)
  show ?thesis
    using T by (simp add: advance_spec(2) [OF d] a)
qed

text \<open>
  C8. Take a state the process can reach in which no debounce timer is armed, and a burst
  of changes of watched files, each less than 300 ms after the one before, the timers firing
  when they are due. During the burst and until 300 ms have passed since its last change,
  \<open>handleFileChange\<close> is not called; when time reaches 300 ms after the last change it has
  been called exactly once, by the timer due at that moment, and no debounce timer is armed
  any more. Two changes in one window are the burst \<open>[t, t']\<close>.
\<close>

theorem debounce_coalesces:
  assumes "chan_inv s" and "debounce_armed s = []" and "within_window (t # ts)"
    and "last (t # ts) + 300 \<le> T"
  shows "resyncs (changes_at (t # ts) s) = resyncs s
    \<and> (\<forall>T'. T' < last (t # ts) + 300 \<longrightarrow> resyncs (advance T' (changes_at (t # ts) s)) = resyncs s)
    \<and> resyncs (advance T (changes_at (t # ts) s)) = resyncs s @ [last (t # ts) + 300]
    \<and> debounce_armed (advance T (changes_at (t # ts) s)) = []"
proof -
  let ?s1 = "on_change t (advance t s)"
  have c: "changes_at (t # ts) s = changes_at ts ?s1"
    by (simp add: changes_at_def)
  note first = change_when_quiet [OF assms(1,2), of t]
  from burst_goes_on [OF first(1) assms(3)]
  have w: "waiting_since (last (t # ts)) (changes_at (t # ts) s)"
    and r: "resyncs (changes_at (t # ts) s) = resyncs s"
    by (simp_all add: c first(2))
  from timer_fires_when_due [OF w assms(4)] not_yet_due [OF w] r show ?thesis
    by simp
qed

theorem debounce_coalesces_witness:
  "chan_inv init_state \<and> debounce_armed init_state = [] \<and> within_window [1000, 1100]
   \<and> last [1000, 1100] + 300 \<le> (1400 :: nat)
   \<and> resyncs (changes_at [1000, 1100] init_state) = []
   \<and> resyncs (advance 1399 (changes_at [1000, 1100] init_state)) = []
   \<and> resyncs (advance 1400 (changes_at [1000, 1100] init_state)) = [1400]"
proof -
  have a: "debounce_armed init_state = []"
    by (simp add: debounce_armed_def init_state_def)
  have b: "within_window [1000, 1100]"
    by simp
  have c: "last [1000, 1100] + 300 \<le> (1400 :: nat)"
    by simp
  have r: "resyncs init_state = []"
    by (simp add: init_state_def)
  from debounce_coalesces [OF chan_inv_init a b c] chan_inv_init a r show ?thesis
    by simp
qed

end
